theory Spec2Isabelle
  imports Main "HOL-Library.Word"
begin

unbundle bit_operations_syntax

section \<open>The null graphics device (src/null/null\_device.cpp)\<close>

text \<open>
  The null device keeps all of its state in the process-wide \<^verbatim>\<open>gdevice\<close> and in
  arrays obtained from \<^verbatim>\<open>new char[n]\<close>. The embedding passes that state explicitly.
  A C++ \<^verbatim>\<open>assert\<close> that fails and an access outside a live array are results of the
  model, not unspecified values.
\<close>

type_synonym byte = "8 word"

datatype error =
    AssertionFailed      \<comment> \<open>an \<^verbatim>\<open>assert(...)\<close> of the source does not hold\<close>
  | UndefinedBehaviour   \<comment> \<open>null, freed or out-of-range access; overlapping \<^verbatim>\<open>memcpy\<close>\<close>

subsection \<open>Element types\<close>

text \<open>
  Modelled from the spec: the enumeration \<^verbatim>\<open>Type\<close>, declared in graphics\_device.h,
  which is not among the sources. Section 6 of the specification lists the element
  types signed-8, unsigned-8, signed-16, unsigned-16, signed-32, unsigned-32 and
  float-32; the enumerators carry the names that \<^verbatim>\<open>GetIndex\<close> switches over and that
  the table \<^verbatim>\<open>TYPE_SIZE\<close> is commented with, in the order of that table.
\<close>

datatype Type =
    TYPE_BYTE
  | TYPE_UNSIGNED_BYTE
  | TYPE_SHORT
  | TYPE_UNSIGNED_SHORT
  | TYPE_INT
  | TYPE_UNSIGNED_INT
  | TYPE_FLOAT

text \<open>
  \<^verbatim>\<open>TYPE_SIZE[type - TYPE_BYTE]\<close>, a table of \<^verbatim>\<open>uint16_t\<close>. The sizes are those of the
  32-bit targets of the code (a handle is a pointer cast to \<^verbatim>\<open>uint32_t\<close>): \<^verbatim>\<open>char\<close> 1,
  \<^verbatim>\<open>short\<close> 2, \<^verbatim>\<open>int\<close> and \<^verbatim>\<open>float\<close> 4 bytes.
\<close>

fun TYPE_SIZE :: "Type \<Rightarrow> 16 word" where
  "TYPE_SIZE TYPE_BYTE = 1"
| "TYPE_SIZE TYPE_UNSIGNED_BYTE = 1"
| "TYPE_SIZE TYPE_SHORT = 2"
| "TYPE_SIZE TYPE_UNSIGNED_SHORT = 2"
| "TYPE_SIZE TYPE_INT = 4"
| "TYPE_SIZE TYPE_UNSIGNED_INT = 4"
| "TYPE_SIZE TYPE_FLOAT = 4"

subsection \<open>Reading typed elements from raw bytes\<close>

text \<open>
  \<^verbatim>\<open>((T*)p)[i]\<close> reads \<^verbatim>\<open>sizeof(T)\<close> bytes at byte offset \<^verbatim>\<open>i * sizeof(T)\<close>. The bytes
  are combined least significant first (the x86 targets of the code are little-endian).
\<close>

fun le_word :: "byte list \<Rightarrow> 'a::len word" where
  "le_word [] = 0"
| "le_word (b # bs) = ucast b OR push_bit 8 (le_word bs)"

definition array_elem :: "byte list \<Rightarrow> nat \<Rightarrow> nat \<Rightarrow> error + byte list" where
  "array_elem buf width i =
     (if (i + 1) * width \<le> length buf then Inr (take width (drop (i * width) buf))
      else Inl UndefinedBehaviour)"

text \<open>
  The conversion of a \<^verbatim>\<open>float\<close> to \<^verbatim>\<open>uint32_t\<close> truncates towards zero and is undefined
  when the truncated value is not representable. The float is given by its IEEE 754
  single-precision bit pattern: sign bit 31, exponent bits 30..23, fraction bits 22..0.
\<close>

definition float_to_uint32 :: "32 word \<Rightarrow> error + 32 word" where
  "float_to_uint32 f =
     (let negative = bit f 31;
          e = unat (drop_bit 23 f AND 0xFF);
          m = unat (f AND 0x7FFFFF);
          t = (if e = 0 then 0
               else if 150 \<le> e then (2 ^ 23 + m) * 2 ^ (e - 150)
               else (2 ^ 23 + m) div 2 ^ (150 - e))
      in if e = 255 then Inl UndefinedBehaviour
         else if t = 0 then Inr 0
         else if negative \<or> 2 ^ 32 \<le> t then Inl UndefinedBehaviour
         else Inr (of_nat t))"

text \<open>
  \<^verbatim>\<open>GetIndex\<close>: the element is read through a pointer of the C type that the tag names
  and the value is converted to \<^verbatim>\<open>uint32_t\<close>. A value of a signed type converts modulo
  \<open>2^32\<close>, which is sign extension (\<open>scast\<close>); plain \<^verbatim>\<open>char\<close> is signed on the compilers
  the code is built with, as the table's comment \<^verbatim>\<open>sizeof(char), // TYPE_BYTE\<close> next to
  \<^verbatim>\<open>sizeof(unsigned char), // TYPE_UNSIGNED_BYTE\<close> has it. The initial \<^verbatim>\<open>result = ~0\<close>
  is overwritten in every case of the switch.
\<close>

definition GetIndex :: "Type \<Rightarrow> byte list \<Rightarrow> 32 word \<Rightarrow> error + 32 word" where
  "GetIndex type index_buffer index =
     (case type of
        TYPE_BYTE \<Rightarrow>
          (case array_elem index_buffer 1 (unat index) of
             Inl e \<Rightarrow> Inl e | Inr bs \<Rightarrow> Inr (scast (le_word bs :: 8 word)))
      | TYPE_UNSIGNED_BYTE \<Rightarrow>
          (case array_elem index_buffer 1 (unat index) of
             Inl e \<Rightarrow> Inl e | Inr bs \<Rightarrow> Inr (ucast (le_word bs :: 8 word)))
      | TYPE_SHORT \<Rightarrow>
          (case array_elem index_buffer 2 (unat index) of
             Inl e \<Rightarrow> Inl e | Inr bs \<Rightarrow> Inr (scast (le_word bs :: 16 word)))
      | TYPE_UNSIGNED_SHORT \<Rightarrow>
          (case array_elem index_buffer 2 (unat index) of
             Inl e \<Rightarrow> Inl e | Inr bs \<Rightarrow> Inr (ucast (le_word bs :: 16 word)))
      | TYPE_INT \<Rightarrow>
          (case array_elem index_buffer 4 (unat index) of
             Inl e \<Rightarrow> Inl e | Inr bs \<Rightarrow> Inr (scast (le_word bs :: 32 word)))
      | TYPE_UNSIGNED_INT \<Rightarrow>
          (case array_elem index_buffer 4 (unat index) of
             Inl e \<Rightarrow> Inl e | Inr bs \<Rightarrow> Inr (ucast (le_word bs :: 32 word)))
      | TYPE_FLOAT \<Rightarrow>
          (case array_elem index_buffer 4 (unat index) of
             Inl e \<Rightarrow> Inl e | Inr bs \<Rightarrow> float_to_uint32 (le_word bs)))"

subsection \<open>Memory\<close>

text \<open>
  Every \<^verbatim>\<open>new char[n]\<close> yields a block of its own; a pointer is a block and a byte
  offset into it, the null pointer is \<open>None\<close>. Blocks are numbered in the order of their
  allocation and a number is never given out twice, so a pointer into a deleted block
  stays invalid. The content of a fresh array is indeterminate in C++; the model fills
  it with zero bytes and no theorem below depends on that content.
\<close>

type_synonym ptr = "nat \<times> nat"
type_synonym heap = "byte list option list"

definition block :: "heap \<Rightarrow> nat \<Rightarrow> byte list option" where
  "block H b = (if b < length H then H ! b else None)"

definition new_char :: "heap \<Rightarrow> nat \<Rightarrow> heap \<times> ptr" where
  "new_char H n = (H @ [Some (replicate n 0)], (length H, 0))"

definition delete_array :: "heap \<Rightarrow> ptr option \<Rightarrow> error + heap" where
  "delete_array H p =
     (case p of
        None \<Rightarrow> Inr H
      | Some (b, off) \<Rightarrow>
          (case block H b of
             None \<Rightarrow> Inl UndefinedBehaviour
           | Some bs \<Rightarrow> if off = 0 then Inr (H[b := None]) else Inl UndefinedBehaviour))"

definition ptr_add :: "ptr option \<Rightarrow> nat \<Rightarrow> error + ptr option" where
  "ptr_add p k =
     (case p of
        None \<Rightarrow> if k = 0 then Inr None else Inl UndefinedBehaviour
      | Some (b, off) \<Rightarrow> Inr (Some (b, off + k)))"

definition load :: "heap \<Rightarrow> ptr \<Rightarrow> nat \<Rightarrow> error + byte list" where
  "load H p n =
     (case block H (fst p) of
        None \<Rightarrow> Inl UndefinedBehaviour
      | Some bs \<Rightarrow>
          if snd p + n \<le> length bs then Inr (take n (drop (snd p) bs))
          else Inl UndefinedBehaviour)"

definition overwrite :: "byte list \<Rightarrow> nat \<Rightarrow> byte list \<Rightarrow> byte list" where
  "overwrite bs off d = take off bs @ d @ drop (off + length d) bs"

definition store :: "heap \<Rightarrow> ptr \<Rightarrow> byte list \<Rightarrow> error + heap" where
  "store H p d =
     (case block H (fst p) of
        None \<Rightarrow> Inl UndefinedBehaviour
      | Some bs \<Rightarrow>
          if snd p + length d \<le> length bs
          then Inr (H[fst p := Some (overwrite bs (snd p) d)])
          else Inl UndefinedBehaviour)"

text \<open>
  \<^verbatim>\<open>memcpy(dst, src, n)\<close> between two pointers into the modelled memory. A copy of no
  bytes reads and writes nothing and returns, whatever the pointers are.
\<close>

definition memcpy :: "heap \<Rightarrow> ptr option \<Rightarrow> ptr option \<Rightarrow> nat \<Rightarrow> error + heap" where
  "memcpy H dst src n =
     (if n = 0 then Inr H
      else case dst of
        None \<Rightarrow> Inl UndefinedBehaviour
      | Some d \<Rightarrow>
          (case src of
             None \<Rightarrow> Inl UndefinedBehaviour
           | Some s \<Rightarrow>
               if fst d = fst s \<and> snd d < snd s + n \<and> snd s < snd d + n
               then Inl UndefinedBehaviour
               else (case load H s n of
                       Inl e \<Rightarrow> Inl e
                     | Inr bs \<Rightarrow> store H d bs)))"

text \<open>
  \<^verbatim>\<open>memcpy(dst, data, n)\<close> from memory of the caller, given by the bytes that \<^verbatim>\<open>data\<close>
  points to. As above, a copy of no bytes returns whatever \<^verbatim>\<open>data\<close> is:
  \<^verbatim>\<open>NewIndexBuffer(0, 0x0, usage)\<close> returns an empty buffer.
\<close>

definition memcpy_from :: "heap \<Rightarrow> ptr option \<Rightarrow> byte list option \<Rightarrow> nat \<Rightarrow> error + heap" where
  "memcpy_from H dst data n =
     (if n = 0 then Inr H
      else case dst of
        None \<Rightarrow> Inl UndefinedBehaviour
      | Some d \<Rightarrow>
          (case data of
             None \<Rightarrow> Inl UndefinedBehaviour
           | Some bs \<Rightarrow>
               if n \<le> length bs then store H d (take n bs) else Inl UndefinedBehaviour))"

text \<open>A 32-bit word in memory, least significant byte first.\<close>

definition u32_bytes :: "32 word \<Rightarrow> byte list" where
  "u32_bytes w = [ucast w, ucast (drop_bit 8 w), ucast (drop_bit 16 w), ucast (drop_bit 24 w)]"

text \<open>
  \<^verbatim>\<open>for (i = 0; i < n; ++i) body\<close>, the body failing or returning the new state:
  the iterations \<open>0, \<dots>, n - 1\<close> run in this order and the first failure ends the loop.
\<close>

fun for_upto :: "nat \<Rightarrow> (nat \<Rightarrow> 's \<Rightarrow> error + 's) \<Rightarrow> 's \<Rightarrow> error + 's" where
  "for_upto 0 body s = Inr s"
| "for_upto (Suc n) body s =
     (case for_upto n body s of Inl e \<Rightarrow> Inl e | Inr s' \<Rightarrow> body n s')"

subsection \<open>Objects of the device\<close>

text \<open>
  Modelled from the spec: the structures of the data model in section 3 (Device,
  VertexBuffer, IndexBuffer, VertexDeclaration, VertexStream, RenderTarget) and the
  constant \<^verbatim>\<open>MAX_VERTEX_STREAM_COUNT\<close> (section 4.3: all 32 slots). They are declared in
  null\_device.h and graphics\_device.h, which are not among the sources. The records
  hold the members that null\_device.cpp reads and writes, under the names it uses,
  with the widths of the parameters they are assigned from (\<^verbatim>\<open>SetVertexStream\<close> takes
  \<^verbatim>\<open>uint16_t size\<close> and \<^verbatim>\<open>uint16_t stride\<close>, \<^verbatim>\<open>NewVertexBuffer\<close> takes \<^verbatim>\<open>uint32_t size\<close>); the
  members of a vertex element are 32 bits wide. Member names that occur in more than
  one structure carry the structure as a prefix. A \<^verbatim>\<open>float\<close> is carried as its 32-bit
  pattern.
\<close>

definition MAX_VERTEX_STREAM_COUNT :: nat where
  "MAX_VERTEX_STREAM_COUNT = 32"

record VertexBuffer =
  vb_m_Buffer :: "ptr option"
  vb_m_Copy :: "ptr option"
  vb_m_Size :: "32 word"

record IndexBuffer =
  ib_m_Buffer :: "ptr option"
  ib_m_Copy :: "ptr option"
  ib_m_Size :: "32 word"

record VertexElement =
  ve_m_Stream :: "32 word"
  ve_m_Size :: "32 word"
  ve_m_Type :: Type

record VertexDeclaration =
  m_Elements :: "VertexElement list"

record VertexStream =
  vs_m_Source :: "ptr option"
  vs_m_Buffer :: "ptr option"
  vs_m_Size :: "16 word"
  vs_m_Stride :: "16 word"

record FrameBuffer =
  m_ColorBuffer :: "ptr option"
  m_DepthBuffer :: "ptr option"
  m_AccumBuffer :: "ptr option"
  m_StencilBuffer :: "ptr option"

record RenderTarget =
  m_Texture :: nat
  rt_m_RenderBuffer :: FrameBuffer

text \<open>
  \<^verbatim>\<open>gdevice.m_RenderBuffer\<close> is a pointer to a \<^verbatim>\<open>FrameBuffer\<close> structure: either
  \<^verbatim>\<open>&gdevice.m_FrameBuffer\<close> or \<^verbatim>\<open>&rendertarget->m_RenderBuffer\<close> of the render target
  with the given handle.
\<close>

datatype FrameBufferRef = DeviceFrameBuffer | TargetRenderBuffer nat

type_synonym Vector4 = "32 word \<times> 32 word \<times> 32 word \<times> 32 word"

record Device =
  m_VertexStreams :: "VertexStream list"
  m_VertexProgramRegisters :: "Vector4 list"
  m_FragmentProgramRegisters :: "Vector4 list"
  m_FrameBuffer :: FrameBuffer
  m_RenderBuffer :: FrameBufferRef
  m_VertexProgram :: "ptr option"
  m_FragmentProgram :: "ptr option"
  m_DisplayWidth :: "32 word"
  m_DisplayHeight :: "32 word"
  m_Opened :: bool
  m_RedMask :: bool
  m_GreenMask :: bool
  m_BlueMask :: bool
  m_AlphaMask :: bool
  m_DepthMask :: bool
  m_IndexMask :: "32 word"
  m_StencilMask :: "32 word"

text \<open>
  The state of the program: the arrays, the global \<^verbatim>\<open>gdevice\<close>, and the render target
  objects by handle (\<open>None\<close> once deleted). Vertex and index buffer objects and vertex
  declarations are passed to the operations and returned by them; nothing in the
  device points to them. A handle or context parameter is \<open>None\<close> when it is null.
  Parameters that a function body never reads (\<^verbatim>\<open>prim_type\<close>, \<^verbatim>\<open>access\<close>,
  \<^verbatim>\<open>buffer_usage\<close>) are left out.
\<close>

record state =
  memory :: heap
  gdevice :: Device
  render_targets :: "RenderTarget option list"

type_synonym HContext = "nat option"

definition GetContext :: HContext where
  "GetContext = Some 0"

subsection \<open>Device creation\<close>

text \<open>
  Modelled from the spec: \<^verbatim>\<open>CreateDeviceParams\<close>, declared in graphics\_device.h, which is
  not among the sources. Section 6: the construction parameters accepted at device-open
  are the display width and the display height.
\<close>

record CreateDeviceParams =
  cp_m_DisplayWidth :: "32 word"
  cp_m_DisplayHeight :: "32 word"

definition null_stream :: VertexStream where
  "null_stream = \<lparr>vs_m_Source = None, vs_m_Buffer = None, vs_m_Size = 0, vs_m_Stride = 0\<rparr>"

text \<open>
  \<^verbatim>\<open>NewDevice\<close>: the three \<^verbatim>\<open>memset\<close> calls zero the stream slots and both register
  banks, the four planes of the default target are \<^verbatim>\<open>new char[4 * width * height]\<close>
  (a product of \<^verbatim>\<open>uint32_t\<close>), and the active plane set is the default one.
\<close>

definition NewDevice :: "state \<Rightarrow> CreateDeviceParams option \<Rightarrow> error + state" where
  "NewDevice st params =
     (case params of
        None \<Rightarrow> Inl AssertionFailed
      | Some ps \<Rightarrow>
          (let w = cp_m_DisplayWidth ps;
               h = cp_m_DisplayHeight ps;
               (H1, colour) = new_char (memory st) (unat (4 * w * h));
               (H2, depth) = new_char H1 (unat (4 * w * h));
               (H3, accum) = new_char H2 (unat (4 * w * h));
               (H4, stencil) = new_char H3 (unat (4 * w * h))
           in Inr (st\<lparr>memory := H4,
                gdevice := (gdevice st)\<lparr>
                  m_VertexStreams := replicate MAX_VERTEX_STREAM_COUNT null_stream,
                  m_VertexProgramRegisters :=
                    map (\<lambda>_. (0, 0, 0, 0)) (m_VertexProgramRegisters (gdevice st)),
                  m_FragmentProgramRegisters :=
                    map (\<lambda>_. (0, 0, 0, 0)) (m_FragmentProgramRegisters (gdevice st)),
                  m_FrameBuffer := \<lparr>m_ColorBuffer = Some colour, m_DepthBuffer = Some depth,
                                    m_AccumBuffer = Some accum, m_StencilBuffer = Some stencil\<rparr>,
                  m_RenderBuffer := DeviceFrameBuffer,
                  m_VertexProgram := None,
                  m_FragmentProgram := None,
                  m_DisplayWidth := w,
                  m_DisplayHeight := h,
                  m_Opened := True\<rparr>\<rparr>)))"

subsection \<open>Clear and render targets\<close>

text \<open>
  Modelled from the spec: the three flag bits of \<^verbatim>\<open>Clear\<close>, declared in
  graphics\_device.h, which is not among the sources. Section 6: "a bitmask over
  {color, depth, stencil} planes". The values are those of the OpenGL bits that the
  hardware back end of the same interface passes on, three distinct single bits.
\<close>

definition CLEAR_COLOUR_BUFFER :: "32 word" where
  "CLEAR_COLOUR_BUFFER = 0x4000"

definition CLEAR_DEPTH_BUFFER :: "32 word" where
  "CLEAR_DEPTH_BUFFER = 0x100"

definition CLEAR_STENCIL_BUFFER :: "32 word" where
  "CLEAR_STENCIL_BUFFER = 0x400"

text \<open>Dereferencing \<^verbatim>\<open>gdevice.m_RenderBuffer\<close>.\<close>

definition render_buffer :: "state \<Rightarrow> error + FrameBuffer" where
  "render_buffer st =
     (case m_RenderBuffer (gdevice st) of
        DeviceFrameBuffer \<Rightarrow> Inr (m_FrameBuffer (gdevice st))
      | TargetRenderBuffer h \<Rightarrow>
          (if h < length (render_targets st)
           then (case render_targets st ! h of
                   None \<Rightarrow> Inl UndefinedBehaviour
                 | Some rt \<Rightarrow> Inr (rt_m_RenderBuffer rt))
           else Inl UndefinedBehaviour))"

text \<open>
  \<^verbatim>\<open>for (uint32_t i = 0; i < buffer_size; ++i) buffer[i] = value;\<close> through a pointer to
  32-bit elements: element \<open>i\<close> is the four bytes at byte offset \<open>4 * i\<close>.
\<close>

definition fill_words :: "heap \<Rightarrow> ptr option \<Rightarrow> nat \<Rightarrow> 32 word \<Rightarrow> error + heap" where
  "fill_words H buffer buffer_size v =
     for_upto buffer_size
       (\<lambda>i H'. case buffer of
                  None \<Rightarrow> Inl UndefinedBehaviour
                | Some (b, off) \<Rightarrow> store H' (b, off + 4 * i) (u32_bytes v))
       H"

text \<open>\<^verbatim>\<open>(red << 24) | (green << 16) | (blue << 8) | alpha\<close>, converted to \<^verbatim>\<open>uint32_t\<close>.\<close>

definition clear_colour :: "byte \<Rightarrow> byte \<Rightarrow> byte \<Rightarrow> byte \<Rightarrow> 32 word" where
  "clear_colour red green blue alpha =
     push_bit 24 (ucast red) OR push_bit 16 (ucast green) OR push_bit 8 (ucast blue) OR ucast alpha"

definition Clear ::
  "state \<Rightarrow> HContext \<Rightarrow> 32 word \<Rightarrow> byte \<Rightarrow> byte \<Rightarrow> byte \<Rightarrow> byte \<Rightarrow> 32 word \<Rightarrow> 32 word
     \<Rightarrow> error + state" where
  "Clear st context flags red green blue alpha depth stencil =
     (if context = None then Inl AssertionFailed
      else
        let buffer_size = m_DisplayWidth (gdevice st) * m_DisplayHeight (gdevice st) in
        case (if flags AND CLEAR_COLOUR_BUFFER \<noteq> 0
              then (let colour = clear_colour red green blue alpha
                    in case render_buffer st of
                         Inl e \<Rightarrow> Inl e
                       | Inr fb \<Rightarrow>
                           fill_words (memory st) (m_ColorBuffer fb) (unat buffer_size) colour)
              else Inr (memory st)) of
          Inl e \<Rightarrow> Inl e
        | Inr H1 \<Rightarrow>
            (case (if flags AND CLEAR_DEPTH_BUFFER \<noteq> 0
                   then (case render_buffer st of
                           Inl e \<Rightarrow> Inl e
                         | Inr fb \<Rightarrow>
                             fill_words H1 (m_DepthBuffer fb) (unat buffer_size) depth)
                   else Inr H1) of
               Inl e \<Rightarrow> Inl e
             | Inr H2 \<Rightarrow>
                 (case (if flags AND CLEAR_STENCIL_BUFFER \<noteq> 0
                        then (case render_buffer st of
                                Inl e \<Rightarrow> Inl e
                              | Inr fb \<Rightarrow>
                                  fill_words H2 (m_StencilBuffer fb) (unat buffer_size) stencil)
                        else Inr H2) of
                    Inl e \<Rightarrow> Inl e
                  | Inr H3 \<Rightarrow> Inr (st\<lparr>memory := H3\<rparr>))))"

definition EnableRenderTarget :: "state \<Rightarrow> HContext \<Rightarrow> nat option \<Rightarrow> error + state" where
  "EnableRenderTarget st context rendertarget =
     (if context = None then Inl AssertionFailed
      else case rendertarget of
             None \<Rightarrow> Inl AssertionFailed
           | Some h \<Rightarrow>
               Inr (st\<lparr>gdevice := (gdevice st)\<lparr>m_RenderBuffer := TargetRenderBuffer h\<rparr>\<rparr>))"

definition DisableRenderTarget :: "state \<Rightarrow> HContext \<Rightarrow> nat option \<Rightarrow> error + state" where
  "DisableRenderTarget st context rendertarget =
     (if context = None then Inl AssertionFailed
      else case rendertarget of
             None \<Rightarrow> Inl AssertionFailed
           | Some h \<Rightarrow>
               Inr (st\<lparr>gdevice := (gdevice st)\<lparr>m_RenderBuffer := DeviceFrameBuffer\<rparr>\<rparr>))"

subsection \<open>Vertex and index buffers\<close>

definition NewVertexBuffer :: "heap \<Rightarrow> 32 word \<Rightarrow> byte list option \<Rightarrow> error + heap \<times> VertexBuffer" where
  "NewVertexBuffer H size' data =
     (let (H1, p) = new_char H (unat size');
          vb = \<lparr>vb_m_Buffer = Some p, vb_m_Copy = None, vb_m_Size = size'\<rparr>
      in if 0 < size' \<and> data \<noteq> None
         then (case memcpy_from H1 (vb_m_Buffer vb) data (unat size') of
                 Inl e \<Rightarrow> Inl e
               | Inr H2 \<Rightarrow> Inr (H2, vb))
         else Inr (H1, vb))"

definition DeleteVertexBuffer :: "heap \<Rightarrow> VertexBuffer \<Rightarrow> error + heap" where
  "DeleteVertexBuffer H vb =
     (if vb_m_Copy vb \<noteq> None then Inl AssertionFailed
      else delete_array H (vb_m_Buffer vb))"

text \<open>
  \<^verbatim>\<open>MapVertexBuffer\<close> returns the new state of the memory and of the buffer object and
  the pointer \<^verbatim>\<open>vb->m_Copy\<close> that the caller writes through.
\<close>

definition MapVertexBuffer :: "heap \<Rightarrow> VertexBuffer \<Rightarrow> error + heap \<times> VertexBuffer \<times> ptr option" where
  "MapVertexBuffer H vb =
     (let (H1, p) = new_char H (unat (vb_m_Size vb));
          vb1 = vb\<lparr>vb_m_Copy := Some p\<rparr>
      in case memcpy H1 (vb_m_Copy vb1) (vb_m_Buffer vb1) (unat (vb_m_Size vb1)) of
           Inl e \<Rightarrow> Inl e
         | Inr H2 \<Rightarrow> Inr (H2, vb1, vb_m_Copy vb1))"

definition UnmapVertexBuffer :: "heap \<Rightarrow> VertexBuffer \<Rightarrow> error + heap \<times> VertexBuffer \<times> bool" where
  "UnmapVertexBuffer H vb =
     (case memcpy H (vb_m_Buffer vb) (vb_m_Copy vb) (unat (vb_m_Size vb)) of
        Inl e \<Rightarrow> Inl e
      | Inr H1 \<Rightarrow>
          (case delete_array H1 (vb_m_Copy vb) of
             Inl e \<Rightarrow> Inl e
           | Inr H2 \<Rightarrow> Inr (H2, vb\<lparr>vb_m_Copy := None\<rparr>, True)))"

definition NewIndexBuffer :: "heap \<Rightarrow> 32 word \<Rightarrow> byte list option \<Rightarrow> error + heap \<times> IndexBuffer" where
  "NewIndexBuffer H size' data =
     (let (H1, p) = new_char H (unat size');
          ib = \<lparr>ib_m_Buffer = Some p, ib_m_Copy = None, ib_m_Size = size'\<rparr>
      in case memcpy_from H1 (ib_m_Buffer ib) data (unat size') of
           Inl e \<Rightarrow> Inl e
         | Inr H2 \<Rightarrow> Inr (H2, ib))"

definition DeleteIndexBuffer :: "heap \<Rightarrow> IndexBuffer \<Rightarrow> error + heap" where
  "DeleteIndexBuffer H ib =
     (if ib_m_Copy ib \<noteq> None then Inl AssertionFailed
      else delete_array H (ib_m_Buffer ib))"

definition MapIndexBuffer :: "heap \<Rightarrow> IndexBuffer \<Rightarrow> error + heap \<times> IndexBuffer \<times> ptr option" where
  "MapIndexBuffer H ib =
     (let (H1, p) = new_char H (unat (ib_m_Size ib));
          ib1 = ib\<lparr>ib_m_Copy := Some p\<rparr>
      in case memcpy H1 (ib_m_Copy ib1) (ib_m_Buffer ib1) (unat (ib_m_Size ib1)) of
           Inl e \<Rightarrow> Inl e
         | Inr H2 \<Rightarrow> Inr (H2, ib1, ib_m_Copy ib1))"

definition UnmapIndexBuffer :: "heap \<Rightarrow> IndexBuffer \<Rightarrow> error + heap \<times> IndexBuffer \<times> bool" where
  "UnmapIndexBuffer H ib =
     (case memcpy H (ib_m_Buffer ib) (ib_m_Copy ib) (unat (ib_m_Size ib)) of
        Inl e \<Rightarrow> Inl e
      | Inr H1 \<Rightarrow>
          (case delete_array H1 (ib_m_Copy ib) of
             Inl e \<Rightarrow> Inl e
           | Inr H2 \<Rightarrow> Inr (H2, ib\<lparr>ib_m_Copy := None\<rparr>, True)))"

subsection \<open>Vertex streams and declarations\<close>

text \<open>
  \<^verbatim>\<open>SetVertexStream\<close>: \<^verbatim>\<open>gdevice.m_VertexStreams[stream]\<close> is an array of
  \<^verbatim>\<open>MAX_VERTEX_STREAM_COUNT\<close> slots; the four assertions are checked in the order of
  the source.
\<close>

definition SetVertexStream ::
  "state \<Rightarrow> HContext \<Rightarrow> 16 word \<Rightarrow> 16 word \<Rightarrow> Type \<Rightarrow> 16 word \<Rightarrow> ptr option \<Rightarrow> error + state" where
  "SetVertexStream st context stream size' type stride vertex_buffer =
     (if context = None then Inl AssertionFailed
      else if vertex_buffer = None then Inl AssertionFailed
      else if \<not> unat stream < MAX_VERTEX_STREAM_COUNT then Inl UndefinedBehaviour
      else
        let s = m_VertexStreams (gdevice st) ! unat stream in
        if vs_m_Source s \<noteq> None then Inl AssertionFailed
        else if vs_m_Buffer s \<noteq> None then Inl AssertionFailed
        else Inr (st\<lparr>gdevice := (gdevice st)\<lparr>m_VertexStreams :=
               (m_VertexStreams (gdevice st))[unat stream :=
                  s\<lparr>vs_m_Source := vertex_buffer,
                    vs_m_Size := size' * TYPE_SIZE type,
                    vs_m_Stride := stride\<rparr>]\<rparr>\<rparr>))"

definition DisableVertexStream :: "state \<Rightarrow> HContext \<Rightarrow> 16 word \<Rightarrow> error + state" where
  "DisableVertexStream st context stream =
     (if context = None then Inl AssertionFailed
      else if \<not> unat stream < MAX_VERTEX_STREAM_COUNT then Inl UndefinedBehaviour
      else
        let s = (m_VertexStreams (gdevice st) ! unat stream)\<lparr>vs_m_Size := 0\<rparr> in
        case (if vs_m_Buffer s \<noteq> None
              then (case delete_array (memory st) (vs_m_Buffer s) of
                      Inl e \<Rightarrow> Inl e
                    | Inr H \<Rightarrow> Inr (H, s\<lparr>vs_m_Buffer := None\<rparr>))
              else Inr (memory st, s)) of
          Inl e \<Rightarrow> Inl e
        | Inr (H, s1) \<Rightarrow>
            Inr (st\<lparr>memory := H,
                    gdevice := (gdevice st)\<lparr>m_VertexStreams :=
                      (m_VertexStreams (gdevice st))[unat stream :=
                         s1\<lparr>vs_m_Source := None\<rparr>]\<rparr>\<rparr>))"

text \<open>
  \<^verbatim>\<open>EnableVertexDeclaration\<close>. The first loop accumulates \<^verbatim>\<open>uint16_t stride\<close>; the
  second walks the slots with \<^verbatim>\<open>uint32_t offset\<close> and calls \<^verbatim>\<open>SetVertexStream\<close> with
  \<^verbatim>\<open>&vb->m_Buffer[offset]\<close> for every slot whose \<^verbatim>\<open>m_Size\<close> is positive. The
  component count of an element is converted to the \<^verbatim>\<open>uint16_t size\<close> parameter.
\<close>

definition EnableVertexDeclaration_stride :: "VertexDeclaration \<Rightarrow> nat \<Rightarrow> 16 word \<Rightarrow> error + 16 word" where
  "EnableVertexDeclaration_stride vd i stride =
     Inr (stride + ucast (ve_m_Size (m_Elements vd ! i)
                          * ucast (TYPE_SIZE (ve_m_Type (m_Elements vd ! i)))))"

definition EnableVertexDeclaration_bind ::
  "HContext \<Rightarrow> VertexDeclaration \<Rightarrow> VertexBuffer \<Rightarrow> 16 word \<Rightarrow> nat \<Rightarrow> state \<times> 32 word
     \<Rightarrow> error + state \<times> 32 word" where
  "EnableVertexDeclaration_bind context vd vb stride i acc =
     (let st = fst acc; offset = snd acc; ve = m_Elements vd ! i in
      if 0 < ve_m_Size ve
      then (case ptr_add (vb_m_Buffer vb) (unat offset) of
              Inl e \<Rightarrow> Inl e
            | Inr p \<Rightarrow>
                (case SetVertexStream st context (of_nat i) (ucast (ve_m_Size ve))
                        (ve_m_Type ve) stride p of
                   Inl e \<Rightarrow> Inl e
                 | Inr st' \<Rightarrow>
                     Inr (st', offset + ve_m_Size ve * ucast (TYPE_SIZE (ve_m_Type ve)))))
      else Inr (st, offset))"

definition EnableVertexDeclaration ::
  "state \<Rightarrow> HContext \<Rightarrow> VertexDeclaration option \<Rightarrow> VertexBuffer option \<Rightarrow> error + state" where
  "EnableVertexDeclaration st context vertex_declaration vertex_buffer =
     (if context = None then Inl AssertionFailed
      else case vertex_declaration of
        None \<Rightarrow> Inl AssertionFailed
      | Some vd \<Rightarrow>
          (case vertex_buffer of
             None \<Rightarrow> Inl AssertionFailed
           | Some vb \<Rightarrow>
               (case for_upto MAX_VERTEX_STREAM_COUNT (EnableVertexDeclaration_stride vd) 0 of
                  Inl e \<Rightarrow> Inl e
                | Inr stride \<Rightarrow>
                    (case for_upto MAX_VERTEX_STREAM_COUNT
                            (EnableVertexDeclaration_bind context vd vb stride) (st, 0) of
                       Inl e \<Rightarrow> Inl e
                     | Inr acc \<Rightarrow> Inr (fst acc)))))"

definition DisableVertexDeclaration ::
  "state \<Rightarrow> HContext \<Rightarrow> VertexDeclaration option \<Rightarrow> error + state" where
  "DisableVertexDeclaration st context vertex_declaration =
     (if context = None then Inl AssertionFailed
      else case vertex_declaration of
        None \<Rightarrow> Inl AssertionFailed
      | Some vd \<Rightarrow>
          for_upto MAX_VERTEX_STREAM_COUNT
            (\<lambda>i st'. if 0 < ve_m_Size (m_Elements vd ! i)
                      then DisableVertexStream st' context (of_nat i)
                      else Inr st')
            st)"

subsection \<open>Drawing\<close>

text \<open>
  \<^verbatim>\<open>DrawElements\<close>. \<^verbatim>\<open>index_buffer\<close> points to memory of the caller and is given by the
  bytes it points to; the call writes only to arrays that it allocates itself, so these
  bytes do not change while it runs. The products \<^verbatim>\<open>vs.m_Size * count\<close>,
  \<^verbatim>\<open>i * vs.m_Size\<close> and \<^verbatim>\<open>index * vs.m_Stride\<close> are products of \<^verbatim>\<open>uint32_t\<close>.
\<close>

definition DrawElements_alloc :: "32 word \<Rightarrow> nat \<Rightarrow> state \<Rightarrow> error + state" where
  "DrawElements_alloc count i st =
     (let vs = m_VertexStreams (gdevice st) ! i in
      if 0 < vs_m_Size vs
      then (let (H, p) = new_char (memory st) (unat (ucast (vs_m_Size vs) * count))
            in Inr (st\<lparr>memory := H,
                      gdevice := (gdevice st)\<lparr>m_VertexStreams :=
                        (m_VertexStreams (gdevice st))[i := vs\<lparr>vs_m_Buffer := Some p\<rparr>]\<rparr>\<rparr>))
      else Inr st)"

definition DrawElements_copy :: "nat \<Rightarrow> 32 word \<Rightarrow> nat \<Rightarrow> state \<Rightarrow> error + state" where
  "DrawElements_copy i index j st =
     (let vs = m_VertexStreams (gdevice st) ! j in
      if 0 < vs_m_Size vs
      then (case ptr_add (vs_m_Buffer vs) (unat (of_nat i * ucast (vs_m_Size vs) :: 32 word)) of
              Inl e \<Rightarrow> Inl e
            | Inr dst \<Rightarrow>
                (case ptr_add (vs_m_Source vs) (unat (index * ucast (vs_m_Stride vs))) of
                   Inl e \<Rightarrow> Inl e
                 | Inr src \<Rightarrow>
                     (case memcpy (memory st) dst src (unat (vs_m_Size vs)) of
                        Inl e \<Rightarrow> Inl e
                      | Inr H \<Rightarrow> Inr (st\<lparr>memory := H\<rparr>))))
      else Inr st)"

definition DrawElements_gather :: "Type \<Rightarrow> byte list \<Rightarrow> nat \<Rightarrow> state \<Rightarrow> error + state" where
  "DrawElements_gather type ib i st =
     (case GetIndex type ib (of_nat i) of
        Inl e \<Rightarrow> Inl e
      | Inr index \<Rightarrow> for_upto MAX_VERTEX_STREAM_COUNT (DrawElements_copy i index) st)"

definition DrawElements ::
  "state \<Rightarrow> HContext \<Rightarrow> 32 word \<Rightarrow> Type \<Rightarrow> byte list option \<Rightarrow> error + state" where
  "DrawElements st context count type index_buffer =
     (if context = None then Inl AssertionFailed
      else case index_buffer of
        None \<Rightarrow> Inl AssertionFailed
      | Some ib \<Rightarrow>
          (case for_upto MAX_VERTEX_STREAM_COUNT (DrawElements_alloc count) st of
             Inl e \<Rightarrow> Inl e
           | Inr st1 \<Rightarrow> for_upto (unat count) (DrawElements_gather type ib) st1))"

subsection \<open>Predicates on states\<close>

text \<open>
  The blocks that the planes of a plane set point into. Planes come from separate
  \<^verbatim>\<open>new char[...]\<close> expressions, so in a state built by the device's operations the
  blocks of one plane set are distinct and two plane sets share no block.
\<close>

definition plane_blocks :: "FrameBuffer \<Rightarrow> nat list" where
  "plane_blocks fb =
     concat (map (\<lambda>p. case p of None \<Rightarrow> [] | Some q \<Rightarrow> [fst q])
       [m_ColorBuffer fb, m_DepthBuffer fb, m_AccumBuffer fb, m_StencilBuffer fb])"

text \<open>No plane of a render target lies in a block of a plane of the default target.\<close>

definition targets_apart :: "state \<Rightarrow> bool" where
  "targets_apart st =
     list_all (\<lambda>r. case r of
                  None \<Rightarrow> True
                | Some rt \<Rightarrow>
                    list_all (\<lambda>b. b \<notin> set (plane_blocks (m_FrameBuffer (gdevice st))))
                      (plane_blocks (rt_m_RenderBuffer rt)))
       (render_targets st)"

text \<open>
  The array that \<open>p\<close> points into is live and holds \<open>n\<close> 32-bit words from \<open>p\<close> on; a loop
  over no words touches nothing.
\<close>

definition holds_words :: "heap \<Rightarrow> ptr option \<Rightarrow> nat \<Rightarrow> bool" where
  "holds_words H p n \<longleftrightarrow>
     n = 0 \<or>
     (case p of
        None \<Rightarrow> False
      | Some q \<Rightarrow>
          (case block H (fst q) of
             None \<Rightarrow> False
           | Some bs \<Rightarrow> snd q + 4 * n \<le> length bs))"

text \<open>
  Every plane of the plane set \<open>fb\<close> that \<^verbatim>\<open>Clear\<close> fills under \<open>flags\<close> holds the \<open>n\<close> words
  that the fill loop writes.
\<close>

definition Clear_in_bounds :: "heap \<Rightarrow> FrameBuffer \<Rightarrow> nat \<Rightarrow> 32 word \<Rightarrow> bool" where
  "Clear_in_bounds H fb n flags \<longleftrightarrow>
     (flags AND CLEAR_COLOUR_BUFFER \<noteq> 0 \<longrightarrow> holds_words H (m_ColorBuffer fb) n) \<and>
     (flags AND CLEAR_DEPTH_BUFFER \<noteq> 0 \<longrightarrow> holds_words H (m_DepthBuffer fb) n) \<and>
     (flags AND CLEAR_STENCIL_BUFFER \<noteq> 0 \<longrightarrow> holds_words H (m_StencilBuffer fb) n)"

text \<open>
  Every source pointer of a stream slot points into an array that has been allocated
  (pointers are values returned by earlier allocations).
\<close>

definition sources_allocated :: "state \<Rightarrow> bool" where
  "sources_allocated st =
     list_all (\<lambda>vs. case vs_m_Source vs of None \<Rightarrow> True | Some p \<Rightarrow> fst p < length (memory st))
       (m_VertexStreams (gdevice st))"

text \<open>
  The stream slots between the first and the second loop of \<^verbatim>\<open>DrawElements\<close>, \<open>L\<close> being the number of
  blocks before the call: every active stream has a buffer of its own among the blocks
  from \<open>L\<close> on, and the sources lie in blocks below \<open>L\<close>.
\<close>

definition draw_layout :: "nat \<Rightarrow> Device \<Rightarrow> bool" where
  "draw_layout L dev \<longleftrightarrow>
     (\<forall>j<length (m_VertexStreams dev). 0 < vs_m_Size (m_VertexStreams dev ! j) \<longrightarrow>
        (\<exists>b. vs_m_Buffer (m_VertexStreams dev ! j) = Some (b, 0) \<and> L \<le> b)) \<and>
     (\<forall>j<length (m_VertexStreams dev). \<forall>j'<length (m_VertexStreams dev).
        j \<noteq> j' \<and> 0 < vs_m_Size (m_VertexStreams dev ! j)
          \<and> 0 < vs_m_Size (m_VertexStreams dev ! j') \<longrightarrow>
        vs_m_Buffer (m_VertexStreams dev ! j) \<noteq> vs_m_Buffer (m_VertexStreams dev ! j')) \<and>
     (\<forall>j<length (m_VertexStreams dev). \<forall>p.
        vs_m_Source (m_VertexStreams dev ! j) = Some p \<longrightarrow> fst p < L)"

subsection \<open>The interleaved layout in the words of the specification\<close>

text \<open>
  Section 4.3 of the specification: the total stride is the sum over all 32 slots of
  component count times byte size of the type; a non-empty slot is bound at the
  accumulated byte offset, which advances by the element byte size of every non-empty
  slot before it. Both are sums of natural numbers here, to be compared with the
  \<^verbatim>\<open>uint16_t stride\<close> and the \<^verbatim>\<open>uint32_t offset\<close> that the code computes.
\<close>

definition element_bytes :: "VertexElement \<Rightarrow> nat" where
  "element_bytes ve = unat (ve_m_Size ve) * unat (TYPE_SIZE (ve_m_Type ve))"

definition spec_stride :: "VertexDeclaration \<Rightarrow> nat" where
  "spec_stride vd = sum_list (map element_bytes (take MAX_VERTEX_STREAM_COUNT (m_Elements vd)))"

definition spec_offset :: "VertexDeclaration \<Rightarrow> nat \<Rightarrow> nat" where
  "spec_offset vd j =
     sum_list (map element_bytes (filter (\<lambda>ve. 0 < ve_m_Size ve) (take j (m_Elements vd))))"

section \<open>Example states\<close>

text \<open>Concrete buffers and device states on which the theorems below are instantiated.\<close>

definition example_vb :: VertexBuffer where
  "example_vb = \<lparr>vb_m_Buffer = Some (0, 0), vb_m_Copy = None, vb_m_Size = 3\<rparr>"

definition example_mapped_vb :: VertexBuffer where
  "example_mapped_vb = \<lparr>vb_m_Buffer = Some (0, 0), vb_m_Copy = Some (1, 0), vb_m_Size = 2\<rparr>"

definition example_mapped_ib :: IndexBuffer where
  "example_mapped_ib = \<lparr>ib_m_Buffer = Some (0, 0), ib_m_Copy = Some (1, 0), ib_m_Size = 2\<rparr>"

text \<open>
  An open device with a 2 x 2 display whose default planes are the blocks 0 to 3
  (16 bytes each), a render target 0 of 3 x 3 pixels with the planes 4 to 7 (36 bytes
  each) and a render target 1 of 1 x 1 pixel with the planes 8 to 11 (4 bytes each).
  Block 12 holds 48 bytes of vertex data, byte \<open>k\<close> of it being \<open>k\<close>.
\<close>

definition example_device :: Device where
  "example_device =
     \<lparr>m_VertexStreams = replicate MAX_VERTEX_STREAM_COUNT null_stream,
      m_VertexProgramRegisters = [],
      m_FragmentProgramRegisters = [],
      m_FrameBuffer = \<lparr>m_ColorBuffer = Some (0, 0), m_DepthBuffer = Some (1, 0),
                        m_AccumBuffer = Some (2, 0), m_StencilBuffer = Some (3, 0)\<rparr>,
      m_RenderBuffer = DeviceFrameBuffer,
      m_VertexProgram = None,
      m_FragmentProgram = None,
      m_DisplayWidth = 2,
      m_DisplayHeight = 2,
      m_Opened = True,
      m_RedMask = False, m_GreenMask = False, m_BlueMask = False, m_AlphaMask = False,
      m_DepthMask = False, m_IndexMask = 0, m_StencilMask = 0\<rparr>"

definition example_target :: RenderTarget where
  "example_target =
     \<lparr>m_Texture = 0,
      rt_m_RenderBuffer = \<lparr>m_ColorBuffer = Some (4, 0), m_DepthBuffer = Some (5, 0),
                            m_AccumBuffer = Some (6, 0), m_StencilBuffer = Some (7, 0)\<rparr>\<rparr>"

definition example_small_target :: RenderTarget where
  "example_small_target =
     \<lparr>m_Texture = 1,
      rt_m_RenderBuffer = \<lparr>m_ColorBuffer = Some (8, 0), m_DepthBuffer = Some (9, 0),
                            m_AccumBuffer = Some (10, 0), m_StencilBuffer = Some (11, 0)\<rparr>\<rparr>"

definition example_memory :: heap where
  "example_memory =
     replicate 4 (Some (replicate 16 0)) @ replicate 4 (Some (replicate 36 0x11))
       @ replicate 4 (Some (replicate 4 0x22)) @ [Some (map of_nat [0..<48])]"

definition example_state :: state where
  "example_state =
     \<lparr>memory = example_memory, gdevice = example_device,
      render_targets = [Some example_target, Some example_small_target]\<rparr>"

definition example_enabled :: "nat \<Rightarrow> state" where
  "example_enabled h =
     example_state\<lparr>gdevice := example_device\<lparr>m_RenderBuffer := TargetRenderBuffer h\<rparr>\<rparr>"

text \<open>
  The example state after \<^verbatim>\<open>Clear\<close> with the colour flag and the colour (10, 20, 30, 255):
  once with render target 0 enabled, once on the default planes. The word 0x0A141EFF
  is stored as the bytes FF 1E 14 0A.
\<close>

definition example_cleared_target :: state where
  "example_cleared_target =
     (example_enabled 0)\<lparr>memory := example_memory
        [4 := Some (concat (replicate 4 [0xFF, 0x1E, 0x14, 0x0A]) @ replicate 20 0x11)]\<rparr>"

definition example_cleared_default :: state where
  "example_cleared_default =
     example_state\<lparr>memory := example_memory
        [0 := Some (concat (replicate 4 [0xFF, 0x1E, 0x14, 0x0A]))]\<rparr>"

text \<open>
  Three interleaved vertices of 16 bytes each in block 12 (byte \<open>k\<close> of the block holds
  the value \<open>k\<close>): stream 0 is three floats, stream 1 four unsigned bytes.
\<close>

definition example_vertex_buffer :: VertexBuffer where
  "example_vertex_buffer = \<lparr>vb_m_Buffer = Some (12, 0), vb_m_Copy = None, vb_m_Size = 48\<rparr>"

definition example_declaration :: VertexDeclaration where
  "example_declaration =
     \<lparr>m_Elements =
        [\<lparr>ve_m_Stream = 0, ve_m_Size = 3, ve_m_Type = TYPE_FLOAT\<rparr>,
         \<lparr>ve_m_Stream = 1, ve_m_Size = 4, ve_m_Type = TYPE_UNSIGNED_BYTE\<rparr>]
        @ replicate 30 \<lparr>ve_m_Stream = 0, ve_m_Size = 0, ve_m_Type = TYPE_BYTE\<rparr>\<rparr>"

text \<open>
  A declaration whose element byte sizes add up to 4 + 0x4001 * 4 = 65544, more than a
  \<^verbatim>\<open>uint16_t\<close> holds.
\<close>

definition example_wide_declaration :: VertexDeclaration where
  "example_wide_declaration =
     \<lparr>m_Elements =
        [\<lparr>ve_m_Stream = 0, ve_m_Size = 4, ve_m_Type = TYPE_UNSIGNED_BYTE\<rparr>,
         \<lparr>ve_m_Stream = 1, ve_m_Size = 0x4001, ve_m_Type = TYPE_FLOAT\<rparr>]
        @ replicate 30 \<lparr>ve_m_Stream = 0, ve_m_Size = 0, ve_m_Type = TYPE_BYTE\<rparr>\<rparr>"

text \<open>The example state with the declaration enabled over the vertex buffer.\<close>

definition example_bound :: state where
  "example_bound =
     example_state\<lparr>gdevice := example_device\<lparr>m_VertexStreams :=
       [\<lparr>vs_m_Source = Some (12, 0), vs_m_Buffer = None, vs_m_Size = 12, vs_m_Stride = 16\<rparr>,
        \<lparr>vs_m_Source = Some (12, 12), vs_m_Buffer = None, vs_m_Size = 4, vs_m_Stride = 16\<rparr>]
       @ replicate 30 null_stream\<rparr>\<rparr>"

text \<open>
  The example state with the wide declaration enabled over the vertex buffer: both
  bindings carry the stride 8, and the second has the size 4 = 0x4001 * 4 - 65536.
\<close>

definition example_wide_bound :: state where
  "example_wide_bound =
     example_state\<lparr>gdevice := example_device\<lparr>m_VertexStreams :=
       [\<lparr>vs_m_Source = Some (12, 0), vs_m_Buffer = None, vs_m_Size = 4, vs_m_Stride = 8\<rparr>,
        \<lparr>vs_m_Source = Some (12, 4), vs_m_Buffer = None, vs_m_Size = 4, vs_m_Stride = 8\<rparr>]
       @ replicate 30 null_stream\<rparr>\<rparr>"

text \<open>
  The state \<open>example_bound\<close> after drawing three vertices with the unsigned 16-bit indices
  2, 0, 1: the compaction buffers are the blocks 13 and 14.
\<close>

definition example_indices :: "byte list" where
  "example_indices = [2, 0, 0, 0, 1, 0]"

definition example_drawn :: state where
  "example_drawn =
     example_state\<lparr>
       memory := example_memory @
         [Some ([32, 33, 34, 35, 36, 37, 38, 39, 40, 41, 42, 43]
                @ [0, 1, 2, 3, 4, 5, 6, 7, 8, 9, 10, 11]
                @ [16, 17, 18, 19, 20, 21, 22, 23, 24, 25, 26, 27]),
          Some ([44, 45, 46, 47] @ [12, 13, 14, 15] @ [28, 29, 30, 31])],
       gdevice := example_device\<lparr>m_VertexStreams :=
       [\<lparr>vs_m_Source = Some (12, 0), vs_m_Buffer = Some (13, 0), vs_m_Size = 12, vs_m_Stride = 16\<rparr>,
        \<lparr>vs_m_Source = Some (12, 12), vs_m_Buffer = Some (14, 0), vs_m_Size = 4, vs_m_Stride = 16\<rparr>]
       @ replicate 30 null_stream\<rparr>\<rparr>"

section \<open>Properties\<close>

subsection \<open>Memory\<close>

lemma block_append [simp]:
  "block (H @ [x]) b = (if b < length H then block H b else if b = length H then x else None)"
  by (simp add: block_def nth_append)

lemma block_update [simp]:
  "block (H[a := x]) b = (if a = b \<and> b < length H then x else block H b)"
  by (simp add: block_def)

lemma block_Some_less: "block H b = Some bs \<Longrightarrow> b < length H"
  by (simp add: block_def split: if_splits)

lemma length_overwrite [simp]:
  "off + length d \<le> length bs \<Longrightarrow> length (overwrite bs off d) = length bs"
  by (simp add: overwrite_def)

lemma overwrite_whole [simp]: "length d = length bs \<Longrightarrow> overwrite bs 0 d = d"
  by (simp add: overwrite_def)

lemma slice_overwrite_same:
  "off + length d \<le> length bs \<Longrightarrow> take (length d) (drop off (overwrite bs off d)) = d"
  by (simp add: overwrite_def)

lemma slice_overwrite_below:
  "off + length d \<le> length bs \<Longrightarrow> o' + n \<le> off \<Longrightarrow>
     take n (drop o' (overwrite bs off d)) = take n (drop o' bs)"
  by (simp add: overwrite_def drop_take)

lemma slice_overwrite_above:
  "off + length d \<le> length bs \<Longrightarrow> off + length d \<le> o' \<Longrightarrow>
     take n (drop o' (overwrite bs off d)) = take n (drop o' bs)"
  by (simp add: overwrite_def)

lemma load_InrD:
  "load H p n = Inr d \<Longrightarrow>
     \<exists>bs. block H (fst p) = Some bs \<and> snd p + n \<le> length bs \<and> d = take n (drop (snd p) bs)"
  by (auto simp: load_def split: option.splits if_splits)

lemma load_length: "load H p n = Inr d \<Longrightarrow> length d = n"
  by (auto dest!: load_InrD)

lemma store_InrD:
  "store H p d = Inr H' \<Longrightarrow>
     \<exists>bs. block H (fst p) = Some bs \<and> snd p + length d \<le> length bs \<and>
          H' = H[fst p := Some (overwrite bs (snd p) d)]"
  by (auto simp: store_def split: option.splits if_splits)

lemma store_length: "store H p d = Inr H' \<Longrightarrow> length H' = length H"
  by (auto dest!: store_InrD)

lemma store_other_block:
  "store H p d = Inr H' \<Longrightarrow> b \<noteq> fst p \<Longrightarrow> block H' b = block H b"
  by (auto dest!: store_InrD)

lemma load_store_same:
  "store H p d = Inr H' \<Longrightarrow> load H' p (length d) = Inr d"
  by (auto dest!: store_InrD simp: load_def slice_overwrite_same dest: block_Some_less)

lemma load_store_apart:
  assumes "store H p d = Inr H'"
    and "fst q \<noteq> fst p \<or> snd q + n \<le> snd p \<or> snd p + length d \<le> snd q"
  shows "load H' q n = load H q n"
proof -
  from assms(1) obtain bs where bs: "block H (fst p) = Some bs" "snd p + length d \<le> length bs"
    "H' = H[fst p := Some (overwrite bs (snd p) d)]"
    by (auto dest!: store_InrD)
  have lt: "fst p < length H" using bs(1) by (rule block_Some_less)
  show ?thesis
  proof (cases "fst q = fst p")
    case False
    then show ?thesis using bs(3) by (simp add: load_def)
  next
    case True
    with assms(2) have "snd q + n \<le> snd p \<or> snd p + length d \<le> snd q" by simp
    then show ?thesis
      using True bs lt
      by (auto simp: load_def slice_overwrite_below slice_overwrite_above)
  qed
qed

lemma for_upto_Inr_Suc:
  "for_upto (Suc n) body s = Inr s' \<longleftrightarrow> (\<exists>s1. for_upto n body s = Inr s1 \<and> body n s1 = Inr s')"
  by (auto split: sum.splits)

lemma fill_words_Suc:
  "fill_words H (Some (b, off)) (Suc n) v = Inr H' \<longleftrightarrow>
     (\<exists>H1. fill_words H (Some (b, off)) n v = Inr H1 \<and>
           store H1 (b, off + 4 * n) (u32_bytes v) = Inr H')"
  by (auto simp: fill_words_def split: sum.splits)

lemma fill_words_0 [simp]: "fill_words H p 0 v = Inr H"
  by (simp add: fill_words_def)

lemma fill_words_None: "fill_words H None n v = Inr H' \<Longrightarrow> n = 0 \<and> H' = H"
  by (cases n) (auto simp: fill_words_def split: sum.splits)

lemma length_u32_bytes [simp]: "length (u32_bytes v) = 4"
  by (simp add: u32_bytes_def)

lemma fill_words_frame:
  "fill_words H (Some (b, off)) n v = Inr H' \<Longrightarrow> b' \<noteq> b \<Longrightarrow> block H' b' = block H b'"
proof (induction n arbitrary: H')
  case 0
  then show ?case by simp
next
  case (Suc n)
  from Suc.prems(1) obtain H1 where H1: "fill_words H (Some (b, off)) n v = Inr H1"
    "store H1 (b, off + 4 * n) (u32_bytes v) = Inr H'"
    by (auto simp: fill_words_Suc)
  have "block H' b' = block H1 b'"
    using H1(2) Suc.prems(2) by (auto dest: store_other_block)
  with Suc.IH [OF H1(1) Suc.prems(2)] show ?case by simp
qed

lemma fill_words_length:
  "fill_words H (Some (b, off)) n v = Inr H' \<Longrightarrow> length H' = length H"
proof (induction n arbitrary: H')
  case 0
  then show ?case by simp
next
  case (Suc n)
  then show ?case by (auto simp: fill_words_Suc dest: store_length)
qed

lemma fill_words_filled:
  "fill_words H (Some (b, off)) n v = Inr H' \<Longrightarrow> i < n \<Longrightarrow>
     load H' (b, off + 4 * i) 4 = Inr (u32_bytes v)"
proof (induction n arbitrary: H')
  case 0
  then show ?case by simp
next
  case (Suc n)
  from Suc.prems(1) obtain H1 where H1: "fill_words H (Some (b, off)) n v = Inr H1"
    "store H1 (b, off + 4 * n) (u32_bytes v) = Inr H'"
    by (auto simp: fill_words_Suc)
  show ?case
  proof (cases "i = n")
    case True
    then show ?thesis using load_store_same [OF H1(2)] by simp
  next
    case False
    with Suc.prems(2) have "i < n" by simp
    then have "load H1 (b, off + 4 * i) 4 = Inr (u32_bytes v)"
      using Suc.IH [OF H1(1)] by simp
    moreover have "load H' (b, off + 4 * i) 4 = load H1 (b, off + 4 * i) 4"
      using \<open>i < n\<close> by (intro load_store_apart [OF H1(2)]) simp
    ultimately show ?thesis by simp
  qed
qed

text \<open>The bytes of the plane behind the filled words are unchanged.\<close>

lemma fill_words_rest:
  "fill_words H (Some (b, off)) n v = Inr H' \<Longrightarrow> off + 4 * n \<le> k \<Longrightarrow>
     load H' (b, k) m = load H (b, k) m"
proof (induction n arbitrary: H')
  case 0
  then show ?case by simp
next
  case (Suc n)
  from Suc.prems(1) obtain H1 where H1: "fill_words H (Some (b, off)) n v = Inr H1"
    "store H1 (b, off + 4 * n) (u32_bytes v) = Inr H'"
    by (auto simp: fill_words_Suc)
  have "load H' (b, k) m = load H1 (b, k) m"
    using Suc.prems(2) by (intro load_store_apart [OF H1(2)]) simp
  moreover have "load H1 (b, k) m = load H (b, k) m"
    using Suc.IH [OF H1(1)] Suc.prems(2) by simp
  ultimately show ?case by simp
qed

lemma fill_words_succeeds:
  "block H b = Some bs \<Longrightarrow> off + 4 * n \<le> length bs \<Longrightarrow>
     \<exists>H' bs'. fill_words H (Some (b, off)) n v = Inr H' \<and> block H' b = Some bs' \<and>
        length bs' = length bs"
proof (induction n)
  case 0
  then show ?case by simp
next
  case (Suc n)
  then obtain H1 bs1 where H1: "fill_words H (Some (b, off)) n v = Inr H1"
    "block H1 b = Some bs1" "length bs1 = length bs"
    by fastforce
  have lt: "b < length H1" using H1(2) by (rule block_Some_less)
  have "store H1 (b, off + 4 * n) (u32_bytes v)
          = Inr (H1[b := Some (overwrite bs1 (off + 4 * n) (u32_bytes v))])"
    using H1(2,3) Suc.prems(2) by (simp add: store_def)
  then show ?case
    using H1 lt Suc.prems(2) by (simp add: fill_words_Suc)
qed

lemma fill_words_other_block:
  assumes "fill_words H p n v = Inr H'" and "\<forall>q. p = Some q \<longrightarrow> fst q \<noteq> b"
  shows "block H' b = block H b"
proof (cases p)
  case None
  then show ?thesis using assms(1) by (auto dest: fill_words_None)
next
  case (Some q)
  then show ?thesis
    using assms fill_words_frame [of H "fst q" "snd q" n v H' b] by simp
qed

lemma load_block_cong: "block H' (fst p) = block H (fst p) \<Longrightarrow> load H' p n = load H p n"
  by (simp add: load_def)

lemma store_nothing: "store H p [] = Inr H' \<Longrightarrow> H' = H"
proof -
  assume "store H p [] = Inr H'"
  then obtain bs where bs: "block H (fst p) = Some bs" "snd p \<le> length bs"
    "H' = H[fst p := Some (overwrite bs (snd p) [])]"
    by (auto dest!: store_InrD)
  have "overwrite bs (snd p) [] = bs" by (simp add: overwrite_def)
  moreover have "fst p < length H" "H ! fst p = Some bs"
    using bs(1) by (simp_all add: block_def split: if_splits)
  ultimately show ?thesis using bs(3) by (simp add: list_update_same_conv)
qed

lemma memcpy_InrD:
  "memcpy H dst src n = Inr H' \<Longrightarrow> 0 < n \<Longrightarrow>
     \<exists>d s data. dst = Some d \<and> src = Some s \<and> load H s n = Inr data \<and> store H d data = Inr H'"
  by (auto simp: memcpy_def split: option.splits if_splits sum.splits)

lemma memcpy_copies:
  assumes "fst d \<noteq> fst s" and "load H s n = Inr data" and "store H d data = Inr H'"
  shows "memcpy H (Some d) (Some s) n = Inr H'"
proof (cases "n = 0")
  case True
  then have "data = []" using load_length [OF assms(2)] by simp
  then have "H' = H" using assms(3) by (auto dest: store_nothing)
  then show ?thesis using True by (simp add: memcpy_def)
next
  case False
  then show ?thesis using assms by (simp add: memcpy_def)
qed

lemma ptr_add_InrD:
  "ptr_add p k = Inr q \<Longrightarrow> (p = None \<and> k = 0 \<and> q = None) \<or> (\<exists>b off. p = Some (b, off) \<and> q = Some (b, off + k))"
  by (auto simp: ptr_add_def split: option.splits if_splits)

lemma load_below:
  "\<forall>b<L. block H' b = block H b \<Longrightarrow> fst p < L \<Longrightarrow> load H' p n = load H p n"
  by (simp add: load_def)

text \<open>A store keeps the length of every array; so does the fill loop.\<close>

lemma store_block_length:
  "store H p d = Inr H' \<Longrightarrow> map_option length (block H' b) = map_option length (block H b)"
  by (auto dest!: store_InrD dest: block_Some_less)

lemma store_error: "store H p d = Inl e \<Longrightarrow> e = UndefinedBehaviour"
  by (auto simp: store_def split: option.splits if_splits)

lemma fill_words_block_length:
  assumes "fill_words H p n v = Inr H'"
  shows "map_option length (block H' b) = map_option length (block H b)"
proof (cases p)
  case None
  then show ?thesis using assms by (auto dest: fill_words_None)
next
  case (Some q)
  obtain a off where q: "q = (a, off)" by (cases q)
  have "fill_words H (Some (a, off)) n v = Inr H' \<Longrightarrow>
     map_option length (block H' b) = map_option length (block H b)"
  proof (induction n arbitrary: H')
    case 0
    then show ?case by simp
  next
    case (Suc n)
    from Suc.prems obtain H1 where H1: "fill_words H (Some (a, off)) n v = Inr H1"
      "store H1 (a, off + 4 * n) (u32_bytes v) = Inr H'"
      by (auto simp: fill_words_Suc)
    show ?case using Suc.IH [OF H1(1)] store_block_length [OF H1(2), of b] by simp
  qed
  then show ?thesis using assms Some q by simp
qed

lemma fill_words_error: "fill_words H p n v = Inl e \<Longrightarrow> e = UndefinedBehaviour"
proof (induction n)
  case 0
  then show ?case by simp
next
  case (Suc n)
  then show ?case
    by (auto simp: fill_words_def split: sum.splits option.splits dest: store_error)
qed

text \<open>The fill loop returns exactly when the plane holds the words it writes.\<close>

lemma holds_words_cong:
  "\<forall>b. map_option length (block H' b) = map_option length (block H b) \<Longrightarrow>
     holds_words H' p n = holds_words H p n"
proof -
  assume a: "\<forall>b. map_option length (block H' b) = map_option length (block H b)"
  show ?thesis
  proof (cases p)
    case None
    then show ?thesis by (simp add: holds_words_def)
  next
    case (Some q)
    from a have "map_option length (block H' (fst q)) = map_option length (block H (fst q))"
      by simp
    then show ?thesis
      unfolding holds_words_def Some
      by (cases "block H' (fst q)"; cases "block H (fst q)") simp_all
  qed
qed

lemma fill_words_holds:
  assumes "fill_words H p n v = Inr H'"
  shows "holds_words H p n"
proof (cases n)
  case 0
  then show ?thesis by (simp add: holds_words_def)
next
  case (Suc m)
  show ?thesis
  proof (cases p)
    case None
    then show ?thesis using assms Suc by (auto dest: fill_words_None)
  next
    case (Some q)
    obtain a off where q: "q = (a, off)" by (cases q)
    from assms obtain H1 where H1: "fill_words H (Some (a, off)) m v = Inr H1"
      "store H1 (a, off + 4 * m) (u32_bytes v) = Inr H'"
      unfolding Some q Suc by (auto simp: fill_words_Suc)
    from store_InrD [OF H1(2)] obtain bs1 where
      bs1: "block H1 a = Some bs1" "off + 4 * m + 4 \<le> length bs1"
      by auto
    from fill_words_block_length [OF H1(1), of a] bs1(1)
    obtain bs where "block H a = Some bs" "length bs = length bs1"
      by (cases "block H a") auto
    then show ?thesis using bs1(2) unfolding holds_words_def Some q Suc by simp
  qed
qed

lemma fill_words_returns:
  assumes "holds_words H p n"
  shows "\<exists>H'. fill_words H p n v = Inr H'"
proof (cases n)
  case 0
  then show ?thesis by simp
next
  case (Suc m)
  with assms obtain q bs where "p = Some q" "block H (fst q) = Some bs"
    "snd q + 4 * n \<le> length bs"
    by (auto simp: holds_words_def split: option.splits)
  then show ?thesis
    using fill_words_succeeds [of H "fst q" bs "snd q" n v] by auto
qed

lemma fill_words_overruns:
  assumes "\<not> holds_words H p n"
  shows "fill_words H p n v = Inl UndefinedBehaviour"
proof (cases "fill_words H p n v")
  case (Inl e)
  then show ?thesis by (auto dest: fill_words_error)
next
  case (Inr H')
  then show ?thesis using assms by (auto dest: fill_words_holds)
qed

text \<open>One of the three fill steps of \<^verbatim>\<open>Clear\<close>, taken or skipped by its flag.\<close>

lemma fill_step_returns:
  assumes "\<forall>b. map_option length (block H b) = map_option length (block H0 b)"
    and "flag \<longrightarrow> holds_words H0 p n"
  shows "\<exists>H'. (if flag then fill_words H p n v else Inr H) = Inr H' \<and>
           (\<forall>b. map_option length (block H' b) = map_option length (block H0 b))"
proof (cases flag)
  case False
  then show ?thesis using assms(1) by simp
next
  case True
  then have "holds_words H p n" using assms holds_words_cong [of H H0 p n] by simp
  then obtain H' where H': "fill_words H p n v = Inr H'"
    using fill_words_returns by blast
  then show ?thesis
    using True assms(1) fill_words_block_length [OF H'] by simp
qed

lemma fill_step_overruns:
  assumes "\<forall>b. map_option length (block H b) = map_option length (block H0 b)"
    and "\<not> (flag \<longrightarrow> holds_words H0 p n)"
  shows "(if flag then fill_words H p n v else Inr H) = Inl UndefinedBehaviour"
proof -
  from assms(2) have f: flag and "\<not> holds_words H0 p n" by simp_all
  then have "\<not> holds_words H p n" using assms(1) holds_words_cong [of H H0 p n] by simp
  then show ?thesis using f by (simp add: fill_words_overruns)
qed

subsection \<open>Index decoding\<close>

text \<open>
  Claim C2 states that every integer index type is decoded by zero extension, a signed
  byte with the bit pattern 0xFF giving the index 0x000000FF. \<^verbatim>\<open>GetIndex\<close> reads the
  element through a pointer of the signed C type for \<^verbatim>\<open>TYPE_BYTE\<close> and \<^verbatim>\<open>TYPE_SHORT\<close>, so
  the stored bit patterns 0xFF and 0xFFFF decode to 0xFFFFFFFF.
\<close>

theorem GetIndex_zero_extension_counterexample:
  "GetIndex TYPE_BYTE [0xFF] 0 = Inr 0xFFFFFFFF \<and>
   GetIndex TYPE_BYTE [0xFF] 0 \<noteq> Inr 0x000000FF \<and>
   GetIndex TYPE_SHORT [0xFF, 0xFF] 0 = Inr 0xFFFFFFFF \<and>
   GetIndex TYPE_SHORT [0xFF, 0xFF] 0 \<noteq> Inr 0x0000FFFF"
  by (simp add: GetIndex_def array_elem_def)

text \<open>
  Claim C2 as amended: decoding the i-th index of an integer type succeeds when the
  element lies inside the buffer and yields the stored value converted to an unsigned
  32-bit index by the conversion of its own C type. The unsigned types are zero
  extended (the unsigned value is kept), the signed 8- and 16-bit types are sign
  extended (the signed value is kept, so a signed byte 0xFF decodes to 0xFFFFFFFF), and
  the 32-bit types are taken bit for bit.
\<close>

theorem GetIndex_by_element_type:
  assumes "GetIndex type index_buffer index = Inr r" and "type \<noteq> TYPE_FLOAT"
  shows "\<exists>bs. array_elem index_buffer (unat (TYPE_SIZE type)) (unat index) = Inr bs \<and>
    (case type of
       TYPE_BYTE \<Rightarrow> sint r = sint (le_word bs :: 8 word)
     | TYPE_UNSIGNED_BYTE \<Rightarrow> uint r = uint (le_word bs :: 8 word)
     | TYPE_SHORT \<Rightarrow> sint r = sint (le_word bs :: 16 word)
     | TYPE_UNSIGNED_SHORT \<Rightarrow> uint r = uint (le_word bs :: 16 word)
     | TYPE_INT \<Rightarrow> r = le_word bs
     | TYPE_UNSIGNED_INT \<Rightarrow> r = le_word bs
     | TYPE_FLOAT \<Rightarrow> True)"
  using assms
  by (cases type)
     (auto simp: GetIndex_def sint_up_scast uint_up_ucast is_up split: sum.splits)

theorem GetIndex_by_element_type_witness:
  "GetIndex TYPE_BYTE [0xFF] 0 = Inr 0xFFFFFFFF \<and> TYPE_BYTE \<noteq> TYPE_FLOAT \<and>
   (\<exists>bs. array_elem [0xFF] (unat (TYPE_SIZE TYPE_BYTE)) (unat (0 :: 32 word)) = Inr bs \<and>
      sint (0xFFFFFFFF :: 32 word) = sint (le_word bs :: 8 word))"
proof -
  have h: "GetIndex TYPE_BYTE [0xFF] 0 = Inr 0xFFFFFFFF"
    by (simp add: GetIndex_def array_elem_def)
  show ?thesis
    using h GetIndex_by_element_type [OF h] by simp
qed

subsection \<open>Mapping and unmapping buffers\<close>

text \<open>A buffer of no bytes is created without data.\<close>

lemma NewIndexBuffer_empty:
  "NewIndexBuffer H 0 None
     = Inr (H @ [Some []], \<lparr>ib_m_Buffer = Some (length H, 0), ib_m_Copy = None, ib_m_Size = 0\<rparr>)"
  by (simp add: NewIndexBuffer_def new_char_def memcpy_from_def)

lemma NewVertexBuffer_empty:
  "NewVertexBuffer H 0 None
     = Inr (H @ [Some []], \<lparr>vb_m_Buffer = Some (length H, 0), vb_m_Copy = None, vb_m_Size = 0\<rparr>)"
  by (simp add: NewVertexBuffer_def new_char_def)

lemma MapVertexBuffer_succeeds:
  assumes "vb_m_Buffer vb = Some p"
    and "load H p (unat (vb_m_Size vb)) = Inr cur"
  shows "MapVertexBuffer H vb =
           Inr ((H @ [Some (replicate (unat (vb_m_Size vb)) 0)])[length H := Some cur],
                vb\<lparr>vb_m_Copy := Some (length H, 0)\<rparr>, Some (length H, 0))"
proof -
  let ?n = "unat (vb_m_Size vb)"
  let ?G = "H @ [Some (replicate ?n 0)]"
  from assms(2) obtain bs where "block H (fst p) = Some bs"
    by (auto dest!: load_InrD)
  then have lt: "fst p < length H" by (rule block_Some_less)
  have len: "length cur = ?n" using assms(2) by (rule load_length)
  have "load ?G p ?n = Inr cur"
    using assms(2) lt by (simp add: load_def)
  moreover have "store ?G (length H, 0) cur = Inr (?G[length H := Some cur])"
    using len by (simp add: store_def)
  moreover have "fst (length H, 0 :: nat) \<noteq> fst p" using lt by simp
  ultimately have "memcpy ?G (Some (length H, 0)) (Some p) ?n = Inr (?G[length H := Some cur])"
    by (intro memcpy_copies)
  then show ?thesis
    using assms(1) by (simp add: MapVertexBuffer_def new_char_def)
qed

lemma MapIndexBuffer_succeeds:
  assumes "ib_m_Buffer ib = Some p"
    and "load H p (unat (ib_m_Size ib)) = Inr cur"
  shows "MapIndexBuffer H ib =
           Inr ((H @ [Some (replicate (unat (ib_m_Size ib)) 0)])[length H := Some cur],
                ib\<lparr>ib_m_Copy := Some (length H, 0)\<rparr>, Some (length H, 0))"
proof -
  let ?n = "unat (ib_m_Size ib)"
  let ?G = "H @ [Some (replicate ?n 0)]"
  from assms(2) obtain bs where "block H (fst p) = Some bs"
    by (auto dest!: load_InrD)
  then have lt: "fst p < length H" by (rule block_Some_less)
  have len: "length cur = ?n" using assms(2) by (rule load_length)
  have "load ?G p ?n = Inr cur"
    using assms(2) lt by (simp add: load_def)
  moreover have "store ?G (length H, 0) cur = Inr (?G[length H := Some cur])"
    using len by (simp add: store_def)
  moreover have "fst (length H, 0 :: nat) \<noteq> fst p" using lt by simp
  ultimately have "memcpy ?G (Some (length H, 0)) (Some p) ?n = Inr (?G[length H := Some cur])"
    by (intro memcpy_copies)
  then show ?thesis
    using assms(1) by (simp add: MapIndexBuffer_def new_char_def)
qed

text \<open>
  Claim C4: for a buffer whose primary storage is a live array of \<^verbatim>\<open>m_Size\<close> bytes and
  for data \<open>D\<close> of that size, \<^verbatim>\<open>MapVertexBuffer\<close>, then writing \<open>D\<close> through the returned
  pointer, then \<^verbatim>\<open>UnmapVertexBuffer\<close> all succeed; afterwards the primary storage holds
  exactly \<open>D\<close>, the snapshot array is deleted and \<^verbatim>\<open>m_Copy\<close> is null again.
\<close>

theorem map_write_unmap_roundtrip:
  assumes "vb_m_Buffer vb = Some p"
    and "load H p (unat (vb_m_Size vb)) = Inr old"
    and "length D = unat (vb_m_Size vb)"
  shows "\<exists>H1 vb1 v H2 H3 vb3.
           MapVertexBuffer H vb = Inr (H1, vb1, Some v) \<and>
           store H1 v D = Inr H2 \<and>
           UnmapVertexBuffer H2 vb1 = Inr (H3, vb3, True) \<and>
           load H3 p (unat (vb_m_Size vb)) = Inr D \<and>
           vb_m_Copy vb3 = None \<and> block H3 (fst v) = None \<and>
           vb_m_Buffer vb3 = Some p \<and> vb_m_Size vb3 = vb_m_Size vb"
proof -
  let ?n = "unat (vb_m_Size vb)"
  let ?v = "(length H, 0 :: nat)"
  let ?G = "H @ [Some (replicate ?n 0)]"
  let ?vb1 = "vb\<lparr>vb_m_Copy := Some ?v\<rparr>"
  from assms(2) obtain bs where bs: "block H (fst p) = Some bs" "snd p + ?n \<le> length bs"
    by (auto dest!: load_InrD)
  have lt: "fst p < length H" using bs(1) by (rule block_Some_less)
  have len_old: "length old = ?n" using assms(2) by (rule load_length)
  let ?H1 = "?G[length H := Some old]"
  have map: "MapVertexBuffer H vb = Inr (?H1, ?vb1, Some ?v)"
    using assms(1,2) by (rule MapVertexBuffer_succeeds)
  let ?H2 = "?H1[length H := Some D]"
  have wr: "store ?H1 ?v D = Inr ?H2"
    using assms(3) len_old by (simp add: store_def)
  let ?H3 = "?H2[fst p := Some (overwrite bs (snd p) D)]"
  have ld2: "load ?H2 ?v ?n = Inr D"
    using assms(3) by (simp add: load_def)
  have st2: "store ?H2 p D = Inr ?H3"
    using lt bs assms(3) by (simp add: store_def)
  have "fst p \<noteq> fst ?v" using lt by simp
  then have cp2: "memcpy ?H2 (Some p) (Some ?v) ?n = Inr ?H3"
    using ld2 st2 by (rule memcpy_copies)
  let ?H4 = "?H3[length H := None]"
  have del: "delete_array ?H3 (Some ?v) = Inr ?H4"
    using lt by (simp add: delete_array_def)
  have unmap: "UnmapVertexBuffer ?H2 ?vb1 = Inr (?H4, ?vb1\<lparr>vb_m_Copy := None\<rparr>, True)"
    using cp2 del assms(1) by (simp add: UnmapVertexBuffer_def)
  have "take (length D) (drop (snd p) (overwrite bs (snd p) D)) = D"
    using bs(2) assms(3) by (intro slice_overwrite_same) simp
  then have fin: "load ?H4 p ?n = Inr D"
    using lt bs assms(3) by (simp add: load_def)
  have freed: "block ?H4 (fst ?v) = None"
    by simp
  show ?thesis
    using map wr unmap fin freed assms(1) by fastforce
qed

theorem map_write_unmap_roundtrip_witness:
  "\<exists>H1 vb1 v H2 H3 vb3.
     MapVertexBuffer [Some [1, 2, 3]] example_vb = Inr (H1, vb1, Some v) \<and>
     store H1 v [9, 8, 7] = Inr H2 \<and>
     UnmapVertexBuffer H2 vb1 = Inr (H3, vb3, True) \<and>
     load H3 (0, 0) (unat (vb_m_Size example_vb)) = Inr [9, 8, 7] \<and>
     vb_m_Copy vb3 = None \<and> block H3 (fst v) = None \<and>
     vb_m_Buffer vb3 = Some (0, 0) \<and> vb_m_Size vb3 = vb_m_Size example_vb"
proof -
  have a: "vb_m_Buffer example_vb = Some (0, 0)"
    by (simp add: example_vb_def)
  have b: "load [Some [1, 2, 3]] (0, 0) (unat (vb_m_Size example_vb)) = Inr [1, 2, 3]"
    by (simp add: example_vb_def load_def block_def)
  have c: "length [9, 8, 7 :: byte] = unat (vb_m_Size example_vb)"
    by (simp add: example_vb_def)
  show ?thesis
    by (rule map_write_unmap_roundtrip [OF a b c])
qed

text \<open>The same round trip for an index buffer.\<close>

lemma map_write_unmap_roundtrip_index:
  assumes "ib_m_Buffer ib = Some p"
    and "load H p (unat (ib_m_Size ib)) = Inr old"
    and "length D = unat (ib_m_Size ib)"
  shows "\<exists>H1 ib1 v H2 H3 ib3.
           MapIndexBuffer H ib = Inr (H1, ib1, Some v) \<and>
           store H1 v D = Inr H2 \<and>
           UnmapIndexBuffer H2 ib1 = Inr (H3, ib3, True) \<and>
           load H3 p (unat (ib_m_Size ib)) = Inr D \<and>
           ib_m_Copy ib3 = None \<and> block H3 (fst v) = None \<and>
           ib_m_Buffer ib3 = Some p \<and> ib_m_Size ib3 = ib_m_Size ib"
proof -
  let ?n = "unat (ib_m_Size ib)"
  let ?v = "(length H, 0 :: nat)"
  let ?G = "H @ [Some (replicate ?n 0)]"
  let ?ib1 = "ib\<lparr>ib_m_Copy := Some ?v\<rparr>"
  from assms(2) obtain bs where bs: "block H (fst p) = Some bs" "snd p + ?n \<le> length bs"
    by (auto dest!: load_InrD)
  have lt: "fst p < length H" using bs(1) by (rule block_Some_less)
  have len_old: "length old = ?n" using assms(2) by (rule load_length)
  let ?H1 = "?G[length H := Some old]"
  have map: "MapIndexBuffer H ib = Inr (?H1, ?ib1, Some ?v)"
    using assms(1,2) by (rule MapIndexBuffer_succeeds)
  let ?H2 = "?H1[length H := Some D]"
  have wr: "store ?H1 ?v D = Inr ?H2"
    using assms(3) len_old by (simp add: store_def)
  let ?H3 = "?H2[fst p := Some (overwrite bs (snd p) D)]"
  have ld2: "load ?H2 ?v ?n = Inr D"
    using assms(3) by (simp add: load_def)
  have st2: "store ?H2 p D = Inr ?H3"
    using lt bs assms(3) by (simp add: store_def)
  have "fst p \<noteq> fst ?v" using lt by simp
  then have cp2: "memcpy ?H2 (Some p) (Some ?v) ?n = Inr ?H3"
    using ld2 st2 by (rule memcpy_copies)
  let ?H4 = "?H3[length H := None]"
  have del: "delete_array ?H3 (Some ?v) = Inr ?H4"
    using lt by (simp add: delete_array_def)
  have unmap: "UnmapIndexBuffer ?H2 ?ib1 = Inr (?H4, ?ib1\<lparr>ib_m_Copy := None\<rparr>, True)"
    using cp2 del assms(1) by (simp add: UnmapIndexBuffer_def)
  have "take (length D) (drop (snd p) (overwrite bs (snd p) D)) = D"
    using bs(2) assms(3) by (intro slice_overwrite_same) simp
  then have fin: "load ?H4 p ?n = Inr D"
    using lt bs assms(3) by (simp add: load_def)
  have freed: "block ?H4 (fst ?v) = None"
    by simp
  show ?thesis
    using map wr unmap fin freed assms(1) by fastforce
qed

text \<open>
  Claim C3 states that mapping a buffer whose snapshot pointer is non-null fails as a
  fatal precondition violation. \<^verbatim>\<open>MapVertexBuffer\<close> and \<^verbatim>\<open>MapIndexBuffer\<close> have no
  assertion: on a buffer with a map outstanding (snapshot in block 1) both return a
  second snapshot (block 2).
\<close>

theorem map_while_mapped_counterexample:
  "MapVertexBuffer [Some [1, 2], Some [1, 2]] example_mapped_vb
     = Inr ([Some [1, 2], Some [1, 2], Some [1, 2]],
            \<lparr>vb_m_Buffer = Some (0, 0), vb_m_Copy = Some (2, 0), vb_m_Size = 2\<rparr>,
            Some (2, 0)) \<and>
   MapIndexBuffer [Some [1, 2], Some [1, 2]] example_mapped_ib
     = Inr ([Some [1, 2], Some [1, 2], Some [1, 2]],
            \<lparr>ib_m_Buffer = Some (0, 0), ib_m_Copy = Some (2, 0), ib_m_Size = 2\<rparr>,
            Some (2, 0))"
  by code_simp

text \<open>
  Claim C3 as amended: mapping a vertex or index buffer on which a map is already
  outstanding does not fail. When the primary storage is a live array of \<^verbatim>\<open>m_Size\<close>
  bytes, the call allocates a new snapshot in a block different from the outstanding
  one, fills it with the current content of the primary storage and records it as the
  buffer's \<^verbatim>\<open>m_Copy\<close>; the buffer object holds one snapshot pointer at any time, the
  latest. The array of the earlier snapshot is left as it was.
\<close>

theorem map_while_mapped_takes_second_snapshot:
  "(vb_m_Copy vb = Some c \<and> block H (fst c) = Some snap \<and> vb_m_Buffer vb = Some p \<and>
      load H p (unat (vb_m_Size vb)) = Inr cur \<longrightarrow>
      (\<exists>H' vb' v. MapVertexBuffer H vb = Inr (H', vb', Some v) \<and>
         vb_m_Copy vb' = Some v \<and> fst v \<noteq> fst c \<and>
         load H' v (unat (vb_m_Size vb)) = Inr cur \<and>
         block H' (fst c) = Some snap)) \<and>
   (ib_m_Copy ib = Some c' \<and> block H (fst c') = Some snap' \<and> ib_m_Buffer ib = Some p' \<and>
      load H p' (unat (ib_m_Size ib)) = Inr cur' \<longrightarrow>
      (\<exists>H' ib' v. MapIndexBuffer H ib = Inr (H', ib', Some v) \<and>
         ib_m_Copy ib' = Some v \<and> fst v \<noteq> fst c' \<and>
         load H' v (unat (ib_m_Size ib)) = Inr cur' \<and>
         block H' (fst c') = Some snap'))"
proof (intro conjI impI)
  assume a: "vb_m_Copy vb = Some c \<and> block H (fst c) = Some snap \<and> vb_m_Buffer vb = Some p \<and>
      load H p (unat (vb_m_Size vb)) = Inr cur"
  then have lt: "fst c < length H" by (auto dest: block_Some_less)
  have len: "length cur = unat (vb_m_Size vb)" using a by (auto dest: load_length)
  show "\<exists>H' vb' v. MapVertexBuffer H vb = Inr (H', vb', Some v) \<and>
         vb_m_Copy vb' = Some v \<and> fst v \<noteq> fst c \<and>
         load H' v (unat (vb_m_Size vb)) = Inr cur \<and>
         block H' (fst c) = Some snap"
    using MapVertexBuffer_succeeds [of vb p H cur] a lt len
    by (simp add: load_def)
next
  assume a: "ib_m_Copy ib = Some c' \<and> block H (fst c') = Some snap' \<and> ib_m_Buffer ib = Some p' \<and>
      load H p' (unat (ib_m_Size ib)) = Inr cur'"
  then have lt: "fst c' < length H" by (auto dest: block_Some_less)
  have len: "length cur' = unat (ib_m_Size ib)" using a by (auto dest: load_length)
  show "\<exists>H' ib' v. MapIndexBuffer H ib = Inr (H', ib', Some v) \<and>
         ib_m_Copy ib' = Some v \<and> fst v \<noteq> fst c' \<and>
         load H' v (unat (ib_m_Size ib)) = Inr cur' \<and>
         block H' (fst c') = Some snap'"
    using MapIndexBuffer_succeeds [of ib p' H cur'] a lt len
    by (simp add: load_def)
qed

theorem map_while_mapped_takes_second_snapshot_witness:
  "(\<exists>H' vb' v. MapVertexBuffer [Some [1, 2], Some [7, 7]] example_mapped_vb = Inr (H', vb', Some v) \<and>
       vb_m_Copy vb' = Some v \<and> fst v \<noteq> fst (1 :: nat, 0 :: nat) \<and>
       load H' v (unat (vb_m_Size example_mapped_vb)) = Inr [1, 2] \<and>
       block H' (fst (1 :: nat, 0 :: nat)) = Some [7, 7]) \<and>
   (\<exists>H' ib' v. MapIndexBuffer [Some [1, 2], Some [7, 7]] example_mapped_ib = Inr (H', ib', Some v) \<and>
       ib_m_Copy ib' = Some v \<and> fst v \<noteq> fst (1 :: nat, 0 :: nat) \<and>
       load H' v (unat (ib_m_Size example_mapped_ib)) = Inr [1, 2] \<and>
       block H' (fst (1 :: nat, 0 :: nat)) = Some [7, 7])"
proof -
  have v: "vb_m_Copy example_mapped_vb = Some (1, 0) \<and>
           block [Some [1, 2], Some [7, 7]] (fst (1 :: nat, 0 :: nat)) = Some [7, 7] \<and>
           vb_m_Buffer example_mapped_vb = Some (0, 0) \<and>
           load [Some [1, 2], Some [7, 7]] (0, 0) (unat (vb_m_Size example_mapped_vb)) = Inr [1, 2]"
    by (simp add: example_mapped_vb_def load_def block_def)
  have i: "ib_m_Copy example_mapped_ib = Some (1, 0) \<and>
           block [Some [1, 2], Some [7, 7]] (fst (1 :: nat, 0 :: nat)) = Some [7, 7] \<and>
           ib_m_Buffer example_mapped_ib = Some (0, 0) \<and>
           load [Some [1, 2], Some [7, 7]] (0, 0) (unat (ib_m_Size example_mapped_ib)) = Inr [1, 2]"
    by (simp add: example_mapped_ib_def load_def block_def)
  show ?thesis
    using v i map_while_mapped_takes_second_snapshot
      [of example_mapped_vb "(1, 0)" "[Some [1, 2], Some [7, 7]]" "[7, 7]" "(0, 0)" "[1, 2]"
          example_mapped_ib "(1, 0)" "[7, 7]" "(0, 0)" "[1, 2]"]
    by blast
qed

subsection \<open>Binding and unbinding a stream\<close>

text \<open>
  Claim C6: for every stream slot (an index below \<^verbatim>\<open>MAX_VERTEX_STREAM_COUNT\<close>),
  \<^verbatim>\<open>SetVertexStream\<close> on a slot whose source pointer or transient buffer is non-null
  ends in a failed assertion; it returns normally only if both are null, and it does
  return normally on such a slot when the context and the source pointer passed in are
  non-null.
\<close>

theorem SetVertexStream_requires_disabled_slot:
  assumes "unat stream < MAX_VERTEX_STREAM_COUNT"
  shows "(vs_m_Source (m_VertexStreams (gdevice st) ! unat stream) \<noteq> None \<or>
          vs_m_Buffer (m_VertexStreams (gdevice st) ! unat stream) \<noteq> None \<longrightarrow>
            SetVertexStream st context stream size' type stride vertex_buffer
              = Inl AssertionFailed) \<and>
         (\<forall>st'. SetVertexStream st context stream size' type stride vertex_buffer = Inr st' \<longrightarrow>
            vs_m_Source (m_VertexStreams (gdevice st) ! unat stream) = None \<and>
            vs_m_Buffer (m_VertexStreams (gdevice st) ! unat stream) = None) \<and>
         (context \<noteq> None \<and> vertex_buffer \<noteq> None \<and>
          vs_m_Source (m_VertexStreams (gdevice st) ! unat stream) = None \<and>
          vs_m_Buffer (m_VertexStreams (gdevice st) ! unat stream) = None \<longrightarrow>
            (\<exists>st'. SetVertexStream st context stream size' type stride vertex_buffer = Inr st'))"
proof -
  let ?s = "m_VertexStreams (gdevice st) ! unat stream"
  show ?thesis
    by (cases "vs_m_Source ?s"; cases "vs_m_Buffer ?s"; cases "context"; cases vertex_buffer)
       (simp_all add: SetVertexStream_def Let_def assms)
qed

theorem SetVertexStream_requires_disabled_slot_witness:
  "SetVertexStream example_bound GetContext 0 3 TYPE_FLOAT 16 (Some (12, 0)) = Inl AssertionFailed \<and>
   (\<exists>st'. SetVertexStream example_state GetContext 0 3 TYPE_FLOAT 16 (Some (12, 0)) = Inr st')"
proof -
  have slot: "unat (0 :: 16 word) < MAX_VERTEX_STREAM_COUNT"
    by (simp add: MAX_VERTEX_STREAM_COUNT_def)
  have bound: "vs_m_Source (m_VertexStreams (gdevice example_bound) ! unat (0 :: 16 word)) \<noteq> None"
    by code_simp
  have free: "GetContext \<noteq> None \<and> Some (12 :: nat, 0 :: nat) \<noteq> None \<and>
      vs_m_Source (m_VertexStreams (gdevice example_state) ! unat (0 :: 16 word)) = None \<and>
      vs_m_Buffer (m_VertexStreams (gdevice example_state) ! unat (0 :: 16 word)) = None"
    by code_simp
  show ?thesis
    using SetVertexStream_requires_disabled_slot
            [OF slot, of example_bound GetContext 3 TYPE_FLOAT 16 "Some (12, 0)"]
          SetVertexStream_requires_disabled_slot
            [OF slot, of example_state GetContext 3 TYPE_FLOAT 16 "Some (12, 0)"]
          bound free
    by blast
qed

lemma DisableVertexStream_disabled:
  assumes "context \<noteq> None"
    and "unat stream < MAX_VERTEX_STREAM_COUNT"
    and "vs_m_Size (m_VertexStreams (gdevice st) ! unat stream) = 0"
    and "vs_m_Source (m_VertexStreams (gdevice st) ! unat stream) = None"
    and "vs_m_Buffer (m_VertexStreams (gdevice st) ! unat stream) = None"
  shows "DisableVertexStream st context stream = Inr st"
proof -
  let ?s = "m_VertexStreams (gdevice st) ! unat stream"
  have eq: "?s\<lparr>vs_m_Size := 0, vs_m_Source := None\<rparr> = ?s"
    using assms(3,4) by (cases ?s) simp
  have "DisableVertexStream st context stream =
          Inr (st\<lparr>memory := memory st, gdevice := (gdevice st)\<lparr>m_VertexStreams :=
                 (m_VertexStreams (gdevice st))[unat stream :=
                    ?s\<lparr>vs_m_Size := 0, vs_m_Source := None\<rparr>]\<rparr>\<rparr>)"
    using assms(1,2,5) by (simp add: DisableVertexStream_def Let_def)
  then show ?thesis
    by (simp add: eq)
qed

text \<open>
  Claim C10: \<^verbatim>\<open>DisableVertexStream\<close> asserts nothing about the slot. On any slot, bound
  or not, whose transient buffer is null or a live array, it returns normally and
  leaves the slot with recorded size 0, a null source pointer and a null transient
  buffer; applied again to the resulting state it returns that same state.
\<close>

theorem DisableVertexStream_idempotent:
  assumes "context \<noteq> None"
    and "unat stream < MAX_VERTEX_STREAM_COUNT"
    and "length (m_VertexStreams (gdevice st)) = MAX_VERTEX_STREAM_COUNT"
    and "\<forall>p. vs_m_Buffer (m_VertexStreams (gdevice st) ! unat stream) = Some p \<longrightarrow>
           snd p = 0 \<and> block (memory st) (fst p) \<noteq> None"
  shows "\<exists>st1. DisableVertexStream st context stream = Inr st1 \<and>
           vs_m_Size (m_VertexStreams (gdevice st1) ! unat stream) = 0 \<and>
           vs_m_Source (m_VertexStreams (gdevice st1) ! unat stream) = None \<and>
           vs_m_Buffer (m_VertexStreams (gdevice st1) ! unat stream) = None \<and>
           DisableVertexStream st1 context stream = Inr st1"
proof -
  let ?s = "m_VertexStreams (gdevice st) ! unat stream"
  have "\<exists>st1. DisableVertexStream st context stream = Inr st1 \<and>
           vs_m_Size (m_VertexStreams (gdevice st1) ! unat stream) = 0 \<and>
           vs_m_Source (m_VertexStreams (gdevice st1) ! unat stream) = None \<and>
           vs_m_Buffer (m_VertexStreams (gdevice st1) ! unat stream) = None"
  proof (cases "vs_m_Buffer ?s")
    case None
    then show ?thesis
      using assms by (simp add: DisableVertexStream_def Let_def)
  next
    case (Some p)
    then obtain bs where "block (memory st) (fst p) = Some bs" "snd p = 0"
      using assms(4) by auto
    then have "delete_array (memory st) (Some p) = Inr ((memory st)[fst p := None])"
      by (cases p) (simp add: delete_array_def)
    then show ?thesis
      using assms Some by (simp add: DisableVertexStream_def Let_def)
  qed
  then obtain st1 where st1: "DisableVertexStream st context stream = Inr st1"
    "vs_m_Size (m_VertexStreams (gdevice st1) ! unat stream) = 0"
    "vs_m_Source (m_VertexStreams (gdevice st1) ! unat stream) = None"
    "vs_m_Buffer (m_VertexStreams (gdevice st1) ! unat stream) = None"
    by blast
  have "DisableVertexStream st1 context stream = Inr st1"
    using assms(1,2) st1(2,3,4) by (rule DisableVertexStream_disabled)
  with st1 show ?thesis by blast
qed

theorem DisableVertexStream_idempotent_witness:
  "\<exists>st1. DisableVertexStream example_drawn GetContext 1 = Inr st1 \<and>
         vs_m_Size (m_VertexStreams (gdevice st1) ! unat (1 :: 16 word)) = 0 \<and>
         vs_m_Source (m_VertexStreams (gdevice st1) ! unat (1 :: 16 word)) = None \<and>
         vs_m_Buffer (m_VertexStreams (gdevice st1) ! unat (1 :: 16 word)) = None \<and>
         DisableVertexStream st1 GetContext 1 = Inr st1"
proof -
  have 1: "GetContext \<noteq> None" by (simp add: GetContext_def)
  have 2: "unat (1 :: 16 word) < MAX_VERTEX_STREAM_COUNT"
    by (simp add: MAX_VERTEX_STREAM_COUNT_def)
  have 3: "length (m_VertexStreams (gdevice example_drawn)) = MAX_VERTEX_STREAM_COUNT"
    by code_simp
  have buf: "vs_m_Buffer (m_VertexStreams (gdevice example_drawn) ! unat (1 :: 16 word)) = Some (14, 0)"
    by code_simp
  have live: "block (memory example_drawn) 14 \<noteq> None"
    by code_simp
  have 4: "\<forall>p. vs_m_Buffer (m_VertexStreams (gdevice example_drawn) ! unat (1 :: 16 word)) = Some p \<longrightarrow>
             snd p = 0 \<and> block (memory example_drawn) (fst p) \<noteq> None"
    using live buf by auto
  show ?thesis
    by (rule DisableVertexStream_idempotent [OF 1 2 3 4])
qed

subsection \<open>Enabling a vertex declaration\<close>

lemma unat_ucast_16_32: "unat (ucast (sz :: 16 word) :: 32 word) = unat sz"
proof -
  have "uint (ucast sz :: 32 word) = uint sz"
    by (rule uint_up_ucast) (simp add: is_up)
  then have "nat (uint (ucast sz :: 32 word)) = nat (uint sz)" by (rule arg_cong)
  then show ?thesis by simp
qed

lemma unat_element_product:
  "unat (a * ucast (t :: 16 word) :: 32 word) = (unat a * unat t) mod 2 ^ 32"
  by (simp add: unat_word_ariths(2) unat_ucast_16_32)

lemma unat_ucast_32_16: "unat (ucast (x :: 32 word) :: 16 word) = unat x mod 2 ^ 16"
  by (simp add: unsigned_ucast_eq take_bit_eq_mod)

lemma stride_step:
  "unat (s + ucast (a * ucast (t :: 16 word) :: 32 word) :: 16 word)
     = (unat s + unat a * unat t) mod 2 ^ 16"
proof -
  have "unat (s + ucast (a * ucast t :: 32 word) :: 16 word)
          = (unat s + ((unat a * unat t) mod 2 ^ 32) mod 2 ^ 16) mod 2 ^ 16"
    by (simp add: unat_word_ariths(1) unat_ucast_32_16 unat_element_product)
  also have "((unat a * unat t) mod 2 ^ 32) mod 2 ^ 16 = (unat a * unat t) mod (2 ^ 16 :: nat)"
    by (rule mod_mod_cancel) simp
  also have "(unat s + (unat a * unat t) mod 2 ^ 16) mod 2 ^ 16 = (unat s + unat a * unat t) mod (2 ^ 16 :: nat)"
    by (rule mod_add_right_eq)
  finally show ?thesis .
qed

lemma stride_loop:
  "k \<le> length (m_Elements vd) \<Longrightarrow>
     \<exists>s. for_upto k (EnableVertexDeclaration_stride vd) 0 = Inr s \<and>
         unat s = sum_list (map element_bytes (take k (m_Elements vd))) mod 2 ^ 16"
proof (induction k)
  case 0
  then show ?case by simp
next
  case (Suc k)
  then obtain s where s: "for_upto k (EnableVertexDeclaration_stride vd) 0 = Inr s"
    "unat s = sum_list (map element_bytes (take k (m_Elements vd))) mod 2 ^ 16"
    by auto
  let ?e = "m_Elements vd ! k"
  let ?s' = "s + ucast (ve_m_Size ?e * ucast (TYPE_SIZE (ve_m_Type ?e)))"
  have run: "for_upto (Suc k) (EnableVertexDeclaration_stride vd) 0 = Inr ?s'"
    using s(1) by (simp add: EnableVertexDeclaration_stride_def)
  have "unat ?s' = (unat s + element_bytes ?e) mod 2 ^ 16"
    by (simp only: stride_step element_bytes_def)
  also have "\<dots> = (sum_list (map element_bytes (take k (m_Elements vd))) + element_bytes ?e) mod 2 ^ 16"
    unfolding s(2) by (rule mod_add_left_eq)
  also have "sum_list (map element_bytes (take k (m_Elements vd))) + element_bytes ?e
      = sum_list (map element_bytes (take (Suc k) (m_Elements vd)))"
    using Suc.prems by (simp add: take_Suc_conv_app_nth)
  finally show ?case using run by blast
qed

lemma SetVertexStream_InrD:
  assumes "SetVertexStream st context stream size' type stride p = Inr st'"
  shows "context \<noteq> None \<and> p \<noteq> None \<and> unat stream < MAX_VERTEX_STREAM_COUNT \<and>
         vs_m_Source (m_VertexStreams (gdevice st) ! unat stream) = None \<and>
         vs_m_Buffer (m_VertexStreams (gdevice st) ! unat stream) = None \<and>
         st' = st\<lparr>gdevice := (gdevice st)\<lparr>m_VertexStreams :=
                 (m_VertexStreams (gdevice st))[unat stream :=
                    (m_VertexStreams (gdevice st) ! unat stream)
                      \<lparr>vs_m_Source := p, vs_m_Size := size' * TYPE_SIZE type,
                        vs_m_Stride := stride\<rparr>]\<rparr>\<rparr>"
proof -
  let ?s = "m_VertexStreams (gdevice st) ! unat stream"
  show ?thesis
    using assms
    by (cases "context"; cases p; cases "unat stream < MAX_VERTEX_STREAM_COUNT";
        cases "vs_m_Source ?s"; cases "vs_m_Buffer ?s")
       (simp_all add: SetVertexStream_def Let_def)
qed

lemma unat_slot: "i < MAX_VERTEX_STREAM_COUNT \<Longrightarrow> unat (of_nat i :: 16 word) = i"
  by (simp add: unat_of_nat MAX_VERTEX_STREAM_COUNT_def)

lemma bind_step:
  assumes "EnableVertexDeclaration_bind context vd vb stride i acc = Inr acc'"
    and "i < MAX_VERTEX_STREAM_COUNT"
    and "vb_m_Buffer vb = Some (b, off)"
  shows "if 0 < ve_m_Size (m_Elements vd ! i)
         then vs_m_Source (m_VertexStreams (gdevice (fst acc)) ! i) = None \<and>
              vs_m_Buffer (m_VertexStreams (gdevice (fst acc)) ! i) = None \<and>
              fst acc' = (fst acc)\<lparr>gdevice := (gdevice (fst acc))\<lparr>m_VertexStreams :=
                 (m_VertexStreams (gdevice (fst acc)))[i :=
                    (m_VertexStreams (gdevice (fst acc)) ! i)
                      \<lparr>vs_m_Source := Some (b, off + unat (snd acc)),
                        vs_m_Size := ucast (ve_m_Size (m_Elements vd ! i))
                                       * TYPE_SIZE (ve_m_Type (m_Elements vd ! i)),
                        vs_m_Stride := stride\<rparr>]\<rparr>\<rparr> \<and>
              snd acc' = snd acc + ve_m_Size (m_Elements vd ! i)
                                     * ucast (TYPE_SIZE (ve_m_Type (m_Elements vd ! i)))
         else acc' = acc"
proof (cases "0 < ve_m_Size (m_Elements vd ! i)")
  case False
  then show ?thesis
    using assms(1) by (simp add: EnableVertexDeclaration_bind_def Let_def)
next
  case True
  let ?ve = "m_Elements vd ! i"
  have pa: "ptr_add (vb_m_Buffer vb) (unat (snd acc)) = Inr (Some (b, off + unat (snd acc)))"
    using assms(3) by (simp add: ptr_add_def)
  from assms(1) True pa obtain st' where
    sv: "SetVertexStream (fst acc) context (of_nat i) (ucast (ve_m_Size ?ve)) (ve_m_Type ?ve) stride
           (Some (b, off + unat (snd acc))) = Inr st'"
    and acc': "acc' = (st', snd acc + ve_m_Size ?ve * ucast (TYPE_SIZE (ve_m_Type ?ve)))"
    by (auto simp: EnableVertexDeclaration_bind_def Let_def split: sum.splits)
  note D = SetVertexStream_InrD [OF sv, unfolded unat_slot [OF assms(2)]]
  show ?thesis
    using True D acc' by simp
qed

lemma offset_step:
  "unat (x + a * ucast (t :: 16 word) :: 32 word) = (unat x + unat a * unat t) mod 2 ^ 32"
proof -
  have "unat (x + a * ucast t :: 32 word) = (unat x + (unat a * unat t) mod 2 ^ 32) mod 2 ^ 32"
    by (simp add: unat_word_ariths(1) unat_element_product)
  also have "\<dots> = (unat x + unat a * unat t) mod 2 ^ 32"
    by (rule mod_add_right_eq)
  finally show ?thesis .
qed

lemma bind_loop_offset:
  assumes "for_upto k (EnableVertexDeclaration_bind context vd vb stride) (st, 0) = Inr acc"
    and "k \<le> MAX_VERTEX_STREAM_COUNT" and "k \<le> length (m_Elements vd)"
    and "vb_m_Buffer vb = Some (b, off)"
  shows "unat (snd acc) = spec_offset vd k mod 2 ^ 32"
  using assms(1,2,3)
proof (induction k arbitrary: acc)
  case 0
  then show ?case by (auto simp: spec_offset_def)
next
  case (Suc k)
  from Suc.prems(1) obtain acc0 where
    a0: "for_upto k (EnableVertexDeclaration_bind context vd vb stride) (st, 0) = Inr acc0"
    and step: "EnableVertexDeclaration_bind context vd vb stride k acc0 = Inr acc"
    by (auto split: sum.splits)
  have ih: "unat (snd acc0) = spec_offset vd k mod 2 ^ 32"
    using Suc.IH [OF a0] Suc.prems(2,3) by simp
  have kl: "k < MAX_VERTEX_STREAM_COUNT" "k < length (m_Elements vd)"
    using Suc.prems(2,3) by simp_all
  let ?e = "m_Elements vd ! k"
  note st = bind_step [OF step kl(1) assms(4)]
  show ?case
  proof (cases "0 < ve_m_Size ?e")
    case False
    then have "acc = acc0" using st by simp
    moreover have "spec_offset vd (Suc k) = spec_offset vd k"
      using False kl(2) by (simp add: spec_offset_def take_Suc_conv_app_nth)
    ultimately show ?thesis using ih by simp
  next
    case True
    then have "snd acc = snd acc0 + ve_m_Size ?e * ucast (TYPE_SIZE (ve_m_Type ?e))"
      using st by simp
    then have "unat (snd acc) = (unat (snd acc0) + element_bytes ?e) mod 2 ^ 32"
      by (simp only: offset_step element_bytes_def)
    also have "\<dots> = (spec_offset vd k + element_bytes ?e) mod 2 ^ 32"
      unfolding ih by (rule mod_add_left_eq)
    also have "spec_offset vd k + element_bytes ?e = spec_offset vd (Suc k)"
      using True kl(2) by (simp add: spec_offset_def take_Suc_conv_app_nth)
    finally show ?thesis .
  qed
qed

lemma bind_loop_frame:
  assumes "for_upto k (EnableVertexDeclaration_bind context vd vb stride) (st, 0) = Inr acc"
    and "k \<le> MAX_VERTEX_STREAM_COUNT"
    and "vb_m_Buffer vb = Some (b, off)"
  shows "memory (fst acc) = memory st \<and> render_targets (fst acc) = render_targets st \<and>
         (gdevice (fst acc))\<lparr>m_VertexStreams := m_VertexStreams (gdevice st)\<rparr> = gdevice st \<and>
         length (m_VertexStreams (gdevice (fst acc))) = length (m_VertexStreams (gdevice st))"
  using assms(1,2)
proof (induction k arbitrary: acc)
  case 0
  then show ?case by auto
next
  case (Suc k)
  from Suc.prems(1) obtain acc0 where
    a0: "for_upto k (EnableVertexDeclaration_bind context vd vb stride) (st, 0) = Inr acc0"
    and step: "EnableVertexDeclaration_bind context vd vb stride k acc0 = Inr acc"
    by (auto split: sum.splits)
  have kl: "k < MAX_VERTEX_STREAM_COUNT" using Suc.prems(2) by simp
  note ih = Suc.IH [OF a0 less_imp_le [OF kl]]
  note st = bind_step [OF step kl assms(3)]
  show ?case
  proof (cases "0 < ve_m_Size (m_Elements vd ! k)")
    case False
    then have "acc = acc0" using st by simp
    then show ?thesis using ih by simp
  next
    case True
    then have "fst acc = (fst acc0)\<lparr>gdevice := (gdevice (fst acc0))\<lparr>m_VertexStreams :=
                 (m_VertexStreams (gdevice (fst acc0)))[k :=
                    (m_VertexStreams (gdevice (fst acc0)) ! k)
                      \<lparr>vs_m_Source := Some (b, off + unat (snd acc0)),
                        vs_m_Size := ucast (ve_m_Size (m_Elements vd ! k))
                                       * TYPE_SIZE (ve_m_Type (m_Elements vd ! k)),
                        vs_m_Stride := stride\<rparr>]\<rparr>\<rparr>"
      using st by simp
    then show ?thesis using ih by simp
  qed
qed

lemma bind_loop_streams:
  assumes "for_upto k (EnableVertexDeclaration_bind context vd vb stride) (st, 0) = Inr acc"
    and "k \<le> MAX_VERTEX_STREAM_COUNT" and "k \<le> length (m_Elements vd)"
    and "vb_m_Buffer vb = Some (b, off)"
    and "j < length (m_VertexStreams (gdevice st))"
  shows "m_VertexStreams (gdevice (fst acc)) ! j =
           (if j < k \<and> 0 < ve_m_Size (m_Elements vd ! j)
            then (m_VertexStreams (gdevice st) ! j)
                   \<lparr>vs_m_Source := Some (b, off + spec_offset vd j mod 2 ^ 32),
                     vs_m_Size := ucast (ve_m_Size (m_Elements vd ! j))
                                    * TYPE_SIZE (ve_m_Type (m_Elements vd ! j)),
                     vs_m_Stride := stride\<rparr>
            else m_VertexStreams (gdevice st) ! j)"
  using assms(1,2,3)
proof (induction k arbitrary: acc)
  case 0
  then show ?case by auto
next
  case (Suc k)
  from Suc.prems(1) obtain acc0 where
    a0: "for_upto k (EnableVertexDeclaration_bind context vd vb stride) (st, 0) = Inr acc0"
    and step: "EnableVertexDeclaration_bind context vd vb stride k acc0 = Inr acc"
    by (auto split: sum.splits)
  have kl: "k < MAX_VERTEX_STREAM_COUNT" "k \<le> MAX_VERTEX_STREAM_COUNT" "k \<le> length (m_Elements vd)"
    using Suc.prems(2,3) by simp_all
  note ih = Suc.IH [OF a0 kl(2,3)]
  note st = bind_step [OF step kl(1) assms(4)]
  have off0: "unat (snd acc0) = spec_offset vd k mod 2 ^ 32"
    using a0 kl(2,3) assms(4) by (rule bind_loop_offset)
  have len0: "length (m_VertexStreams (gdevice (fst acc0))) = length (m_VertexStreams (gdevice st))"
    using bind_loop_frame [OF a0 kl(2) assms(4)] by simp
  show ?case
  proof (cases "0 < ve_m_Size (m_Elements vd ! k)")
    case False
    then have "acc = acc0" using st by simp
    moreover have "(j < Suc k \<and> 0 < ve_m_Size (m_Elements vd ! j))
        = (j < k \<and> 0 < ve_m_Size (m_Elements vd ! j))"
      using False by (cases "j = k") auto
    ultimately show ?thesis using ih by simp
  next
    case True
    then have acc: "m_VertexStreams (gdevice (fst acc)) =
                 (m_VertexStreams (gdevice (fst acc0)))[k :=
                    (m_VertexStreams (gdevice (fst acc0)) ! k)
                      \<lparr>vs_m_Source := Some (b, off + unat (snd acc0)),
                        vs_m_Size := ucast (ve_m_Size (m_Elements vd ! k))
                                       * TYPE_SIZE (ve_m_Type (m_Elements vd ! k)),
                        vs_m_Stride := stride\<rparr>]"
      using st by simp
    show ?thesis
    proof (cases "j = k")
      case True
      have "m_VertexStreams (gdevice (fst acc0)) ! k = m_VertexStreams (gdevice st) ! k"
        using ih True by simp
      then show ?thesis
        using True \<open>0 < ve_m_Size (m_Elements vd ! k)\<close> assms(5) len0 off0 by (simp add: acc)
    next
      case False
      then have "(j < Suc k \<and> 0 < ve_m_Size (m_Elements vd ! j))
        = (j < k \<and> 0 < ve_m_Size (m_Elements vd ! j))"
        by auto
      then show ?thesis using ih False by (simp add: acc)
    qed
  qed
qed

lemma EnableVertexDeclaration_InrD:
  assumes "EnableVertexDeclaration st context (Some vd) (Some vb) = Inr st'"
  shows "\<exists>stride acc. for_upto MAX_VERTEX_STREAM_COUNT (EnableVertexDeclaration_stride vd) 0 = Inr stride \<and>
           for_upto MAX_VERTEX_STREAM_COUNT (EnableVertexDeclaration_bind context vd vb stride) (st, 0)
             = Inr acc \<and> st' = fst acc"
  using assms by (auto simp: EnableVertexDeclaration_def split: if_splits sum.splits)

text \<open>
  Claim C5 states that enabling a declaration computes a single stride equal to the
  sum over all 32 slots of component count times byte size of the type.
  \<^verbatim>\<open>EnableVertexDeclaration\<close> adds the element byte sizes up in \<^verbatim>\<open>uint16_t stride\<close>: on the
  declaration of four unsigned bytes and 0x4001 floats the sum is 65544 and both
  bindings receive the stride 8.
\<close>

theorem EnableVertexDeclaration_stride_counterexample:
  "EnableVertexDeclaration example_state GetContext (Some example_wide_declaration)
       (Some example_vertex_buffer) = Inr example_wide_bound \<and>
   vs_m_Stride (m_VertexStreams (gdevice example_wide_bound) ! 0) = 8 \<and>
   vs_m_Stride (m_VertexStreams (gdevice example_wide_bound) ! 1) = 8 \<and>
   spec_stride example_wide_declaration = 65544"
proof -
  have "EnableVertexDeclaration example_state GetContext (Some example_wide_declaration)
       (Some example_vertex_buffer) = Inr example_wide_bound"
    by code_simp
  moreover have "vs_m_Stride (m_VertexStreams (gdevice example_wide_bound) ! 0) = 8 \<and>
     vs_m_Stride (m_VertexStreams (gdevice example_wide_bound) ! 1) = 8"
    by code_simp
  moreover have "spec_stride example_wide_declaration = 65544"
    by (simp add: spec_stride_def element_bytes_def example_wide_declaration_def
          MAX_VERTEX_STREAM_COUNT_def)
  ultimately show ?thesis by blast
qed

text \<open>
  Claim C5 as amended: when \<^verbatim>\<open>EnableVertexDeclaration\<close> returns normally, every non-empty
  slot of the declaration is bound at the source pointer \<^verbatim>\<open>&vb->m_Buffer[offset]\<close> whose
  offset is the sum of the element byte sizes of the non-empty slots with smaller ids,
  reduced modulo \<open>2^32\<close> (\<^verbatim>\<open>uint32_t offset\<close>), and every binding carries the one stride
  that is the sum of the element byte sizes of all 32 slots, reduced modulo \<open>2^16\<close>
  (\<^verbatim>\<open>uint16_t stride\<close>); empty slots leave their stream as it was. For sums below \<open>2^32\<close>
  and \<open>2^16\<close> offset and stride are the sums themselves.
\<close>

theorem EnableVertexDeclaration_interleaved_layout:
  assumes "EnableVertexDeclaration st context (Some vd) (Some vb) = Inr st'"
    and "length (m_Elements vd) = MAX_VERTEX_STREAM_COUNT"
    and "length (m_VertexStreams (gdevice st)) = MAX_VERTEX_STREAM_COUNT"
    and "vb_m_Buffer vb = Some (b, off)"
    and "j < MAX_VERTEX_STREAM_COUNT"
  shows "if 0 < ve_m_Size (m_Elements vd ! j)
         then vs_m_Source (m_VertexStreams (gdevice st') ! j)
                = Some (b, off + spec_offset vd j mod 2 ^ 32) \<and>
              unat (vs_m_Stride (m_VertexStreams (gdevice st') ! j)) = spec_stride vd mod 2 ^ 16
         else m_VertexStreams (gdevice st') ! j = m_VertexStreams (gdevice st) ! j"
proof -
  from EnableVertexDeclaration_InrD [OF assms(1)] obtain stride acc where
    s: "for_upto MAX_VERTEX_STREAM_COUNT (EnableVertexDeclaration_stride vd) 0 = Inr stride"
    and l: "for_upto MAX_VERTEX_STREAM_COUNT (EnableVertexDeclaration_bind context vd vb stride) (st, 0)
             = Inr acc"
    and st': "st' = fst acc"
    by blast
  have "unat stride = spec_stride vd mod 2 ^ 16"
    using stride_loop [of MAX_VERTEX_STREAM_COUNT vd] s assms(2) by (simp add: spec_stride_def)
  moreover note bind_loop_streams [OF l _ _ assms(4), of j]
  ultimately show ?thesis
    using assms(2,3,5) st' by simp
qed

theorem EnableVertexDeclaration_interleaved_layout_witness:
  "EnableVertexDeclaration example_state GetContext (Some example_declaration)
       (Some example_vertex_buffer) = Inr example_bound \<and>
   vs_m_Source (m_VertexStreams (gdevice example_bound) ! 1)
     = Some (12, 0 + spec_offset example_declaration 1 mod 2 ^ 32) \<and>
   unat (vs_m_Stride (m_VertexStreams (gdevice example_bound) ! 1))
     = spec_stride example_declaration mod 2 ^ 16 \<and>
   spec_offset example_declaration 1 = 12 \<and> spec_stride example_declaration = 16 \<and>
   unat (vs_m_Stride (m_VertexStreams (gdevice example_wide_bound) ! 1))
     = spec_stride example_wide_declaration mod 2 ^ 16"
proof -
  have run: "EnableVertexDeclaration example_state GetContext (Some example_declaration)
       (Some example_vertex_buffer) = Inr example_bound"
    by code_simp
  have 1: "length (m_Elements example_declaration) = MAX_VERTEX_STREAM_COUNT" by code_simp
  have 2: "length (m_VertexStreams (gdevice example_state)) = MAX_VERTEX_STREAM_COUNT" by code_simp
  have 3: "vb_m_Buffer example_vertex_buffer = Some (12, 0)" by code_simp
  have 4: "(1 :: nat) < MAX_VERTEX_STREAM_COUNT" by code_simp
  have pos: "0 < ve_m_Size (m_Elements example_declaration ! 1)" by code_simp
  have val: "spec_offset example_declaration 1 = 12 \<and> spec_stride example_declaration = 16"
    by code_simp
  from EnableVertexDeclaration_interleaved_layout [OF run 1 2 3 4] pos
  have "vs_m_Source (m_VertexStreams (gdevice example_bound) ! 1)
          = Some (12, 0 + spec_offset example_declaration 1 mod 2 ^ 32) \<and>
        unat (vs_m_Stride (m_VertexStreams (gdevice example_bound) ! 1))
          = spec_stride example_declaration mod 2 ^ 16"
    by (simp only: if_True)
  moreover have wide: "EnableVertexDeclaration example_state GetContext
       (Some example_wide_declaration) (Some example_vertex_buffer) = Inr example_wide_bound"
    by code_simp
  have 5: "length (m_Elements example_wide_declaration) = MAX_VERTEX_STREAM_COUNT" by code_simp
  have wpos: "0 < ve_m_Size (m_Elements example_wide_declaration ! 1)" by code_simp
  from EnableVertexDeclaration_interleaved_layout [OF wide 5 2 3 4] wpos
  have "vs_m_Source (m_VertexStreams (gdevice example_wide_bound) ! 1)
          = Some (12, 0 + spec_offset example_wide_declaration 1 mod 2 ^ 32) \<and>
        unat (vs_m_Stride (m_VertexStreams (gdevice example_wide_bound) ! 1))
          = spec_stride example_wide_declaration mod 2 ^ 16"
    by (simp only: if_True)
  ultimately show ?thesis using run val by blast
qed

subsection \<open>Clear and the active plane set\<close>

lemma Clear_InrD:
  assumes "Clear st context flags red green blue alpha depth stencil = Inr st'"
    and "render_buffer st = Inr fb"
  shows "\<exists>H1 H2 H3.
        (if flags AND CLEAR_COLOUR_BUFFER \<noteq> 0
         then fill_words (memory st) (m_ColorBuffer fb)
                (unat (m_DisplayWidth (gdevice st) * m_DisplayHeight (gdevice st)))
                (clear_colour red green blue alpha)
         else Inr (memory st)) = Inr H1 \<and>
        (if flags AND CLEAR_DEPTH_BUFFER \<noteq> 0
         then fill_words H1 (m_DepthBuffer fb)
                (unat (m_DisplayWidth (gdevice st) * m_DisplayHeight (gdevice st))) depth
         else Inr H1) = Inr H2 \<and>
        (if flags AND CLEAR_STENCIL_BUFFER \<noteq> 0
         then fill_words H2 (m_StencilBuffer fb)
                (unat (m_DisplayWidth (gdevice st) * m_DisplayHeight (gdevice st))) stencil
         else Inr H2) = Inr H3 \<and>
        st' = st\<lparr>memory := H3\<rparr>"
  using assms unfolding Clear_def Let_def
  by (auto split: sum.splits if_splits)

lemma plane_blocks_simps:
  "m_ColorBuffer fb = Some q \<Longrightarrow> fst q \<in> set (plane_blocks fb)"
  "m_DepthBuffer fb = Some q \<Longrightarrow> fst q \<in> set (plane_blocks fb)"
  "m_AccumBuffer fb = Some q \<Longrightarrow> fst q \<in> set (plane_blocks fb)"
  "m_StencilBuffer fb = Some q \<Longrightarrow> fst q \<in> set (plane_blocks fb)"
  by (simp_all add: plane_blocks_def)

text \<open>\<^verbatim>\<open>Clear\<close> writes only into blocks of the active plane set.\<close>

lemma Clear_frame:
  assumes "Clear st context flags red green blue alpha depth stencil = Inr st'"
    and "render_buffer st = Inr fb"
    and "b \<notin> set (plane_blocks fb)"
  shows "block (memory st') b = block (memory st) b"
proof -
  let ?n = "unat (m_DisplayWidth (gdevice st) * m_DisplayHeight (gdevice st))"
  obtain H1 H2 H3 where
    c: "(if flags AND CLEAR_COLOUR_BUFFER \<noteq> 0
         then fill_words (memory st) (m_ColorBuffer fb) ?n (clear_colour red green blue alpha)
         else Inr (memory st)) = Inr H1"
    and d: "(if flags AND CLEAR_DEPTH_BUFFER \<noteq> 0
         then fill_words H1 (m_DepthBuffer fb) ?n depth else Inr H1) = Inr H2"
    and s: "(if flags AND CLEAR_STENCIL_BUFFER \<noteq> 0
         then fill_words H2 (m_StencilBuffer fb) ?n stencil else Inr H2) = Inr H3"
    and st': "st' = st\<lparr>memory := H3\<rparr>"
    using Clear_InrD [OF assms(1,2)] by auto
  have nc: "\<forall>q. m_ColorBuffer fb = Some q \<longrightarrow> fst q \<noteq> b"
    and nd: "\<forall>q. m_DepthBuffer fb = Some q \<longrightarrow> fst q \<noteq> b"
    and ns: "\<forall>q. m_StencilBuffer fb = Some q \<longrightarrow> fst q \<noteq> b"
    using assms(3) plane_blocks_simps [of fb] by blast+
  have 1: "block H1 b = block (memory st) b"
    using c nc by (auto split: if_splits dest: fill_words_other_block)
  have 2: "block H2 b = block H1 b"
    using d nd by (auto split: if_splits dest: fill_words_other_block)
  have 3: "block H3 b = block H2 b"
    using s ns by (auto split: if_splits dest: fill_words_other_block)
  show ?thesis using 1 2 3 st' by simp
qed

text \<open>
  With the colour flag, the first \<^verbatim>\<open>m_DisplayWidth * m_DisplayHeight\<close> words of the active
  colour plane hold the packed colour.
\<close>

lemma Clear_colour_plane:
  assumes "Clear st context flags red green blue alpha depth stencil = Inr st'"
    and "render_buffer st = Inr fb"
    and "flags AND CLEAR_COLOUR_BUFFER \<noteq> 0"
    and "m_ColorBuffer fb = Some c"
    and "distinct (plane_blocks fb)"
    and "i < unat (m_DisplayWidth (gdevice st) * m_DisplayHeight (gdevice st))"
  shows "load (memory st') (fst c, snd c + 4 * i) 4 = Inr (u32_bytes (clear_colour red green blue alpha))"
proof -
  let ?n = "unat (m_DisplayWidth (gdevice st) * m_DisplayHeight (gdevice st))"
  obtain H1 H2 H3 where
    c: "fill_words (memory st) (m_ColorBuffer fb) ?n (clear_colour red green blue alpha) = Inr H1"
    and d: "(if flags AND CLEAR_DEPTH_BUFFER \<noteq> 0
         then fill_words H1 (m_DepthBuffer fb) ?n depth else Inr H1) = Inr H2"
    and s: "(if flags AND CLEAR_STENCIL_BUFFER \<noteq> 0
         then fill_words H2 (m_StencilBuffer fb) ?n stencil else Inr H2) = Inr H3"
    and st': "st' = st\<lparr>memory := H3\<rparr>"
    using Clear_InrD [OF assms(1,2)] assms(3) by auto
  have nd: "\<forall>q. m_DepthBuffer fb = Some q \<longrightarrow> fst q \<noteq> fst c"
    and ns: "\<forall>q. m_StencilBuffer fb = Some q \<longrightarrow> fst q \<noteq> fst c"
    using assms(4,5) by (auto simp: plane_blocks_def split: option.splits)
  have 1: "load H1 (fst c, snd c + 4 * i) 4 = Inr (u32_bytes (clear_colour red green blue alpha))"
    using c assms(4,6) fill_words_filled [of "memory st" "fst c" "snd c" ?n _ H1 i] by simp
  have 2: "block H2 (fst c) = block H1 (fst c)"
    using d nd by (auto split: if_splits dest: fill_words_other_block)
  have 3: "block H3 (fst c) = block H2 (fst c)"
    using s ns by (auto split: if_splits dest: fill_words_other_block)
  have "load H3 (fst c, snd c + 4 * i) 4 = load H1 (fst c, snd c + 4 * i) 4"
    using 2 3 by (intro load_block_cong) simp
  then show ?thesis using 1 st' by simp
qed

lemma EnableRenderTarget_Inr:
  "context \<noteq> None \<Longrightarrow> EnableRenderTarget st context (Some h)
     = Inr (st\<lparr>gdevice := (gdevice st)\<lparr>m_RenderBuffer := TargetRenderBuffer h\<rparr>\<rparr>)"
  by (simp add: EnableRenderTarget_def)

lemma DisableRenderTarget_Inr:
  "context \<noteq> None \<Longrightarrow> DisableRenderTarget st context (Some h)
     = Inr (st\<lparr>gdevice := (gdevice st)\<lparr>m_RenderBuffer := DeviceFrameBuffer\<rparr>\<rparr>)"
  by (simp add: DisableRenderTarget_def)

lemma targets_apartD:
  assumes "targets_apart st"
    and "h < length (render_targets st)" and "render_targets st ! h = Some rt"
  shows "set (plane_blocks (rt_m_RenderBuffer rt))
           \<inter> set (plane_blocks (m_FrameBuffer (gdevice st))) = {}"
proof -
  have "render_targets st ! h \<in> set (render_targets st)" using assms(2) by simp
  then have "list_all (\<lambda>b. b \<notin> set (plane_blocks (m_FrameBuffer (gdevice st))))
               (plane_blocks (rt_m_RenderBuffer rt))"
    using assms(1,3) unfolding targets_apart_def list_all_iff by fastforce
  then show ?thesis unfolding list_all_iff by blast
qed

lemma Clear_steps:
  assumes "context \<noteq> None" and "render_buffer st = Inr fb"
  shows "Clear st context flags red green blue alpha depth stencil =
     (case (if flags AND CLEAR_COLOUR_BUFFER \<noteq> 0
            then fill_words (memory st) (m_ColorBuffer fb)
                   (unat (m_DisplayWidth (gdevice st) * m_DisplayHeight (gdevice st)))
                   (clear_colour red green blue alpha)
            else Inr (memory st)) of
        Inl e \<Rightarrow> Inl e
      | Inr H1 \<Rightarrow>
          (case (if flags AND CLEAR_DEPTH_BUFFER \<noteq> 0
                 then fill_words H1 (m_DepthBuffer fb)
                        (unat (m_DisplayWidth (gdevice st) * m_DisplayHeight (gdevice st))) depth
                 else Inr H1) of
             Inl e \<Rightarrow> Inl e
           | Inr H2 \<Rightarrow>
               (case (if flags AND CLEAR_STENCIL_BUFFER \<noteq> 0
                      then fill_words H2 (m_StencilBuffer fb)
                             (unat (m_DisplayWidth (gdevice st) * m_DisplayHeight (gdevice st)))
                             stencil
                      else Inr H2) of
                  Inl e \<Rightarrow> Inl e
                | Inr H3 \<Rightarrow> Inr (st\<lparr>memory := H3\<rparr>))))"
proof -
  from assms(1) obtain c where c: "context = Some c" by (cases "context") simp_all
  show ?thesis
    unfolding Clear_def Let_def c using assms(2) by (simp cong: sum.case_cong if_cong)
qed

text \<open>
  \<^verbatim>\<open>Clear\<close> returns exactly when every plane that it fills holds
  \<^verbatim>\<open>m_DisplayWidth * m_DisplayHeight\<close> words; otherwise a fill loop runs past the end of
  its plane.
\<close>

lemma Clear_total:
  assumes "context \<noteq> None" and "render_buffer st = Inr fb"
  shows "if Clear_in_bounds (memory st) fb
              (unat (m_DisplayWidth (gdevice st) * m_DisplayHeight (gdevice st))) flags
         then \<exists>st'. Clear st context flags red green blue alpha depth stencil = Inr st'
         else Clear st context flags red green blue alpha depth stencil = Inl UndefinedBehaviour"
proof -
  let ?n = "unat (m_DisplayWidth (gdevice st) * m_DisplayHeight (gdevice st))"
  let ?H = "memory st"
  let ?A = "flags AND CLEAR_COLOUR_BUFFER \<noteq> 0 \<longrightarrow> holds_words ?H (m_ColorBuffer fb) ?n"
  let ?B = "flags AND CLEAR_DEPTH_BUFFER \<noteq> 0 \<longrightarrow> holds_words ?H (m_DepthBuffer fb) ?n"
  let ?C = "flags AND CLEAR_STENCIL_BUFFER \<noteq> 0 \<longrightarrow> holds_words ?H (m_StencilBuffer fb) ?n"
  note steps = Clear_steps [OF assms, of flags red green blue alpha depth stencil]
  have same: "\<forall>b. map_option length (block ?H b) = map_option length (block ?H b)" by simp
  show ?thesis
  proof (cases ?A)
    case False
    have "(if flags AND CLEAR_COLOUR_BUFFER \<noteq> 0
           then fill_words ?H (m_ColorBuffer fb) ?n (clear_colour red green blue alpha)
           else Inr ?H) = Inl UndefinedBehaviour"
      using same False by (rule fill_step_overruns)
    then have "Clear st context flags red green blue alpha depth stencil = Inl UndefinedBehaviour"
      unfolding steps by simp
    moreover have "\<not> Clear_in_bounds ?H fb ?n flags" using False by (simp add: Clear_in_bounds_def)
    ultimately show ?thesis by simp
  next
    case A: True
    from fill_step_returns [OF same A, of "clear_colour red green blue alpha"]
    obtain H1 where
      H1: "(if flags AND CLEAR_COLOUR_BUFFER \<noteq> 0
            then fill_words ?H (m_ColorBuffer fb) ?n (clear_colour red green blue alpha)
            else Inr ?H) = Inr H1" and
      l1: "\<forall>b. map_option length (block H1 b) = map_option length (block ?H b)"
      by blast
    show ?thesis
    proof (cases ?B)
      case False
      have "(if flags AND CLEAR_DEPTH_BUFFER \<noteq> 0
             then fill_words H1 (m_DepthBuffer fb) ?n depth else Inr H1) = Inl UndefinedBehaviour"
        using l1 False by (rule fill_step_overruns)
      then have "Clear st context flags red green blue alpha depth stencil = Inl UndefinedBehaviour"
        unfolding steps H1 by simp
      moreover have "\<not> Clear_in_bounds ?H fb ?n flags"
        using False by (simp add: Clear_in_bounds_def)
      ultimately show ?thesis by simp
    next
      case B: True
      from fill_step_returns [OF l1 B, of depth]
      obtain H2 where
        H2: "(if flags AND CLEAR_DEPTH_BUFFER \<noteq> 0
              then fill_words H1 (m_DepthBuffer fb) ?n depth else Inr H1) = Inr H2" and
        l2: "\<forall>b. map_option length (block H2 b) = map_option length (block ?H b)"
        by blast
      show ?thesis
      proof (cases ?C)
        case False
        have "(if flags AND CLEAR_STENCIL_BUFFER \<noteq> 0
               then fill_words H2 (m_StencilBuffer fb) ?n stencil else Inr H2)
                = Inl UndefinedBehaviour"
          using l2 False by (rule fill_step_overruns)
        then have "Clear st context flags red green blue alpha depth stencil
                     = Inl UndefinedBehaviour"
          unfolding steps H1 using H2 by simp
        moreover have "\<not> Clear_in_bounds ?H fb ?n flags"
          using False by (simp add: Clear_in_bounds_def)
        ultimately show ?thesis by simp
      next
        case C: True
        from fill_step_returns [OF l2 C, of stencil]
        obtain H3 where
          H3: "(if flags AND CLEAR_STENCIL_BUFFER \<noteq> 0
                then fill_words H2 (m_StencilBuffer fb) ?n stencil else Inr H2) = Inr H3"
          by blast
        have "Clear st context flags red green blue alpha depth stencil = Inr (st\<lparr>memory := H3\<rparr>)"
          unfolding steps H1 using H2 H3 by simp
        moreover have "Clear_in_bounds ?H fb ?n flags"
          using A B C by (simp add: Clear_in_bounds_def)
        ultimately show ?thesis by simp
      qed
    qed
  qed
qed

text \<open>The operations on the example state.\<close>

lemma EnableRenderTarget_example:
  "EnableRenderTarget example_state GetContext (Some 0) = Inr (example_enabled 0)"
  "EnableRenderTarget example_state GetContext (Some 1) = Inr (example_enabled 1)"
  "DisableRenderTarget (example_enabled 0) GetContext (Some 0) = Inr example_state"
  by code_simp+

lemma Clear_example_target:
  "Clear (example_enabled 0) GetContext CLEAR_COLOUR_BUFFER 10 20 30 255 0 0
     = Inr example_cleared_target"
  by code_simp

lemma Clear_example_small_target:
  "Clear (example_enabled 1) GetContext CLEAR_COLOUR_BUFFER 10 20 30 255 0 0
     = Inl UndefinedBehaviour"
  by code_simp

text \<open>On the default planes of the 2 x 2 display all four pixels become 0x0A141EFF.\<close>

lemma Clear_example_default:
  "Clear example_state GetContext CLEAR_COLOUR_BUFFER 10 20 30 255 0 0
     = Inr example_cleared_default"
  "clear_colour 10 20 30 255 = 0x0A141EFF"
  "block (memory example_cleared_default) 0 = Some (concat (replicate 4 (u32_bytes 0x0A141EFF)))"
  by code_simp+

text \<open>
  Claim C8: after \<^verbatim>\<open>EnableRenderTarget\<close>, \<^verbatim>\<open>Clear\<close> with the colour flag stores the packed
  colour into the words of the render target's colour plane and leaves every plane of
  the default framebuffer as it was; after \<^verbatim>\<open>DisableRenderTarget\<close> it stores it into the
  words of the default colour plane and leaves every plane of every render target as
  it was. This is what the code does whenever the planes that it fills hold the
  \<^verbatim>\<open>m_DisplayWidth * m_DisplayHeight\<close> words of the fill loop. \<^verbatim>\<open>Clear\<close> takes this number of
  words from the display whatever plane set is active: on a render target with fewer
  pixels than the display the fill loop runs past the end of the target's plane, a
  write outside the private planes of the target for which C++ defines no result. The
  planes of a plane set are separate arrays, as are those of different sets.
\<close>

theorem Clear_writes_active_plane_set_only:
  assumes "context \<noteq> None"
    and "h < length (render_targets st)" and "render_targets st ! h = Some rt"
    and "m_ColorBuffer (rt_m_RenderBuffer rt) = Some c"
    and "m_ColorBuffer (m_FrameBuffer (gdevice st)) = Some f"
    and "distinct (plane_blocks (rt_m_RenderBuffer rt))"
    and "distinct (plane_blocks (m_FrameBuffer (gdevice st)))"
    and "targets_apart st"
    and "flags AND CLEAR_COLOUR_BUFFER \<noteq> 0"
    and "n = unat (m_DisplayWidth (gdevice st) * m_DisplayHeight (gdevice st))"
  shows "(\<exists>st1. EnableRenderTarget st context (Some h) = Inr st1 \<and>
           (if Clear_in_bounds (memory st) (rt_m_RenderBuffer rt) n flags
            then \<exists>st2. Clear st1 context flags red green blue alpha depth stencil = Inr st2 \<and>
              (\<forall>i<n. load (memory st2) (fst c, snd c + 4 * i) 4
                        = Inr (u32_bytes (clear_colour red green blue alpha))) \<and>
              (\<forall>b \<in> set (plane_blocks (m_FrameBuffer (gdevice st))).
                 block (memory st2) b = block (memory st) b)
            else Clear st1 context flags red green blue alpha depth stencil
                   = Inl UndefinedBehaviour)) \<and>
         (\<exists>st1. DisableRenderTarget st context (Some h) = Inr st1 \<and>
           (if Clear_in_bounds (memory st) (m_FrameBuffer (gdevice st)) n flags
            then \<exists>st2. Clear st1 context flags red green blue alpha depth stencil = Inr st2 \<and>
              (\<forall>i<n. load (memory st2) (fst f, snd f + 4 * i) 4
                        = Inr (u32_bytes (clear_colour red green blue alpha))) \<and>
              (\<forall>h' rt'. h' < length (render_targets st) \<and> render_targets st ! h' = Some rt' \<longrightarrow>
                 (\<forall>b \<in> set (plane_blocks (rt_m_RenderBuffer rt')).
                    block (memory st2) b = block (memory st) b))
            else Clear st1 context flags red green blue alpha depth stencil
                   = Inl UndefinedBehaviour))"
proof (intro conjI)
  let ?st1 = "st\<lparr>gdevice := (gdevice st)\<lparr>m_RenderBuffer := TargetRenderBuffer h\<rparr>\<rparr>"
  let ?fb = "rt_m_RenderBuffer rt"
  have rb: "render_buffer ?st1 = Inr ?fb"
    using assms(2,3) by (simp add: render_buffer_def)
  have total: "if Clear_in_bounds (memory st) ?fb n flags
         then \<exists>st2. Clear ?st1 context flags red green blue alpha depth stencil = Inr st2
         else Clear ?st1 context flags red green blue alpha depth stencil = Inl UndefinedBehaviour"
    using Clear_total [OF assms(1) rb, of flags red green blue alpha depth stencil] assms(10)
    by simp
  have "if Clear_in_bounds (memory st) ?fb n flags
        then \<exists>st2. Clear ?st1 context flags red green blue alpha depth stencil = Inr st2 \<and>
              (\<forall>i<n. load (memory st2) (fst c, snd c + 4 * i) 4
                        = Inr (u32_bytes (clear_colour red green blue alpha))) \<and>
              (\<forall>b \<in> set (plane_blocks (m_FrameBuffer (gdevice st))).
                 block (memory st2) b = block (memory st) b)
        else Clear ?st1 context flags red green blue alpha depth stencil = Inl UndefinedBehaviour"
  proof (cases "Clear_in_bounds (memory st) ?fb n flags")
    case False
    then show ?thesis using total by simp
  next
    case True
    with total obtain st2 where
      cl: "Clear ?st1 context flags red green blue alpha depth stencil = Inr st2"
      by auto
    have word: "load (memory st2) (fst c, snd c + 4 * i) 4
                  = Inr (u32_bytes (clear_colour red green blue alpha))" if "i < n" for i
      using Clear_colour_plane [OF cl rb assms(9,4,6), of i] assms(10) that by simp
    have keep: "block (memory st2) b = block (memory st) b"
      if b: "b \<in> set (plane_blocks (m_FrameBuffer (gdevice st)))" for b
    proof -
      have "b \<notin> set (plane_blocks ?fb)"
        using targets_apartD [OF assms(8,2,3)] b by blast
      then show ?thesis using Clear_frame [OF cl rb] by simp
    qed
    show ?thesis using True cl word keep by simp
  qed
  then show "\<exists>st1. EnableRenderTarget st context (Some h) = Inr st1 \<and>
           (if Clear_in_bounds (memory st) (rt_m_RenderBuffer rt) n flags
            then \<exists>st2. Clear st1 context flags red green blue alpha depth stencil = Inr st2 \<and>
              (\<forall>i<n. load (memory st2) (fst c, snd c + 4 * i) 4
                        = Inr (u32_bytes (clear_colour red green blue alpha))) \<and>
              (\<forall>b \<in> set (plane_blocks (m_FrameBuffer (gdevice st))).
                 block (memory st2) b = block (memory st) b)
            else Clear st1 context flags red green blue alpha depth stencil
                   = Inl UndefinedBehaviour)"
    using EnableRenderTarget_Inr [OF assms(1), of st h] by simp
next
  let ?st1 = "st\<lparr>gdevice := (gdevice st)\<lparr>m_RenderBuffer := DeviceFrameBuffer\<rparr>\<rparr>"
  let ?fb = "m_FrameBuffer (gdevice st)"
  have rb: "render_buffer ?st1 = Inr ?fb"
    by (simp add: render_buffer_def)
  have total: "if Clear_in_bounds (memory st) ?fb n flags
         then \<exists>st2. Clear ?st1 context flags red green blue alpha depth stencil = Inr st2
         else Clear ?st1 context flags red green blue alpha depth stencil = Inl UndefinedBehaviour"
    using Clear_total [OF assms(1) rb, of flags red green blue alpha depth stencil] assms(10)
    by simp
  have "if Clear_in_bounds (memory st) ?fb n flags
        then \<exists>st2. Clear ?st1 context flags red green blue alpha depth stencil = Inr st2 \<and>
              (\<forall>i<n. load (memory st2) (fst f, snd f + 4 * i) 4
                        = Inr (u32_bytes (clear_colour red green blue alpha))) \<and>
              (\<forall>h' rt'. h' < length (render_targets st) \<and> render_targets st ! h' = Some rt' \<longrightarrow>
                 (\<forall>b \<in> set (plane_blocks (rt_m_RenderBuffer rt')).
                    block (memory st2) b = block (memory st) b))
        else Clear ?st1 context flags red green blue alpha depth stencil = Inl UndefinedBehaviour"
  proof (cases "Clear_in_bounds (memory st) ?fb n flags")
    case False
    then show ?thesis using total by simp
  next
    case True
    with total obtain st2 where
      cl: "Clear ?st1 context flags red green blue alpha depth stencil = Inr st2"
      by auto
    have word: "load (memory st2) (fst f, snd f + 4 * i) 4
                  = Inr (u32_bytes (clear_colour red green blue alpha))" if "i < n" for i
      using Clear_colour_plane [OF cl rb assms(9,5,7), of i] assms(10) that by simp
    have keep: "block (memory st2) b = block (memory st) b"
      if h': "h' < length (render_targets st)" "render_targets st ! h' = Some rt'"
        and b: "b \<in> set (plane_blocks (rt_m_RenderBuffer rt'))" for h' rt' b
    proof -
      have "b \<notin> set (plane_blocks ?fb)"
        using targets_apartD [OF assms(8) h'] b by blast
      then show ?thesis using Clear_frame [OF cl rb] by simp
    qed
    show ?thesis using True cl word keep by auto
  qed
  then show "\<exists>st1. DisableRenderTarget st context (Some h) = Inr st1 \<and>
           (if Clear_in_bounds (memory st) (m_FrameBuffer (gdevice st)) n flags
            then \<exists>st2. Clear st1 context flags red green blue alpha depth stencil = Inr st2 \<and>
              (\<forall>i<n. load (memory st2) (fst f, snd f + 4 * i) 4
                        = Inr (u32_bytes (clear_colour red green blue alpha))) \<and>
              (\<forall>h' rt'. h' < length (render_targets st) \<and> render_targets st ! h' = Some rt' \<longrightarrow>
                 (\<forall>b \<in> set (plane_blocks (rt_m_RenderBuffer rt')).
                    block (memory st2) b = block (memory st) b))
            else Clear st1 context flags red green blue alpha depth stencil
                   = Inl UndefinedBehaviour)"
    using DisableRenderTarget_Inr [OF assms(1), of st h] by simp
qed

theorem Clear_writes_active_plane_set_only_witness:
  "EnableRenderTarget example_state GetContext (Some 0) = Inr (example_enabled 0) \<and>
   Clear (example_enabled 0) GetContext CLEAR_COLOUR_BUFFER 10 20 30 255 0 0
     = Inr example_cleared_target \<and>
   load (memory example_cleared_target) (4, 12) 4 = Inr (u32_bytes (clear_colour 10 20 30 255)) \<and>
   block (memory example_cleared_target) 0 = block (memory example_state) 0 \<and>
   DisableRenderTarget (example_enabled 0) GetContext (Some 0) = Inr example_state \<and>
   Clear example_state GetContext CLEAR_COLOUR_BUFFER 10 20 30 255 0 0
     = Inr example_cleared_default \<and>
   load (memory example_cleared_default) (0, 12) 4 = Inr (u32_bytes (clear_colour 10 20 30 255)) \<and>
   block (memory example_cleared_default) 4 = block (memory (example_enabled 0)) 4 \<and>
   EnableRenderTarget example_state GetContext (Some 1) = Inr (example_enabled 1) \<and>
   Clear (example_enabled 1) GetContext CLEAR_COLOUR_BUFFER 10 20 30 255 0 0
     = Inl UndefinedBehaviour"
proof -
  have 1: "GetContext \<noteq> None" by (simp add: GetContext_def)
  have 2: "(0 :: nat) < length (render_targets example_state)"
    "(0 :: nat) < length (render_targets (example_enabled 0))"
    "(1 :: nat) < length (render_targets example_state)" by code_simp+
  have 3: "render_targets example_state ! 0 = Some example_target"
    "render_targets (example_enabled 0) ! 0 = Some example_target"
    "render_targets example_state ! 1 = Some example_small_target" by code_simp+
  have 4: "m_ColorBuffer (rt_m_RenderBuffer example_target) = Some (4, 0)"
    "m_ColorBuffer (rt_m_RenderBuffer example_small_target) = Some (8, 0)" by code_simp+
  have 5: "m_ColorBuffer (m_FrameBuffer (gdevice example_state)) = Some (0, 0)"
    "m_ColorBuffer (m_FrameBuffer (gdevice (example_enabled 0))) = Some (0, 0)" by code_simp+
  have 6: "distinct (plane_blocks (rt_m_RenderBuffer example_target))"
    "distinct (plane_blocks (rt_m_RenderBuffer example_small_target))" by code_simp+
  have 7: "distinct (plane_blocks (m_FrameBuffer (gdevice example_state)))"
    "distinct (plane_blocks (m_FrameBuffer (gdevice (example_enabled 0))))" by code_simp+
  have 8: "targets_apart example_state" "targets_apart (example_enabled 0)" by code_simp+
  have 9: "CLEAR_COLOUR_BUFFER AND CLEAR_COLOUR_BUFFER \<noteq> 0" by code_simp
  have 10: "(4 :: nat) = unat (m_DisplayWidth (gdevice example_state)
                                * m_DisplayHeight (gdevice example_state))"
    "(4 :: nat) = unat (m_DisplayWidth (gdevice (example_enabled 0))
                          * m_DisplayHeight (gdevice (example_enabled 0)))" by code_simp+
  have fits: "Clear_in_bounds (memory example_state) (rt_m_RenderBuffer example_target) 4
                CLEAR_COLOUR_BUFFER"
    "Clear_in_bounds (memory (example_enabled 0))
       (m_FrameBuffer (gdevice (example_enabled 0))) 4 CLEAR_COLOUR_BUFFER"
    by code_simp+
  have short: "\<not> Clear_in_bounds (memory example_state)
                   (rt_m_RenderBuffer example_small_target) 4 CLEAR_COLOUR_BUFFER"
    by code_simp
  have fb: "(0 :: nat) \<in> set (plane_blocks (m_FrameBuffer (gdevice example_state)))"
    and tb: "(4 :: nat) \<in> set (plane_blocks (rt_m_RenderBuffer example_target))" by code_simp+
  note A = Clear_writes_active_plane_set_only
             [OF 1 2(1) 3(1) 4(1) 5(1) 6(1) 7(1) 8(1) 9 10(1), of 10 20 30 255 0 0, THEN conjunct1]
  note B = Clear_writes_active_plane_set_only
             [OF 1 2(2) 3(2) 4(1) 5(2) 6(1) 7(2) 8(2) 9 10(2), of 10 20 30 255 0 0, THEN conjunct2]
  note C = Clear_writes_active_plane_set_only
             [OF 1 2(3) 3(3) 4(2) 5(1) 6(2) 7(1) 8(1) 9 10(1), of 10 20 30 255 0 0, THEN conjunct1]
  from A fits(1) obtain st1 st2 where
    a1: "EnableRenderTarget example_state GetContext (Some 0) = Inr st1" and
    a2: "Clear st1 GetContext CLEAR_COLOUR_BUFFER 10 20 30 255 0 0 = Inr st2" and
    a3: "\<forall>i<4. load (memory st2) (fst (4 :: nat, 0 :: nat), snd (4 :: nat, 0 :: nat) + 4 * i) 4
                  = Inr (u32_bytes (clear_colour 10 20 30 255))" and
    a4: "\<forall>b \<in> set (plane_blocks (m_FrameBuffer (gdevice example_state))).
           block (memory st2) b = block (memory example_state) b"
    by (simp only: if_True) blast
  have s1: "st1 = example_enabled 0" using a1 EnableRenderTarget_example(1) by simp
  have s2: "st2 = example_cleared_target" using a2 s1 Clear_example_target by simp
  from a3 have a5: "load (memory example_cleared_target) (4, 12) 4
      = Inr (u32_bytes (clear_colour 10 20 30 255))"
    unfolding s2 by (auto dest: spec [of _ 3])
  from a4 fb have a6: "block (memory example_cleared_target) 0 = block (memory example_state) 0"
    unfolding s2 by blast
  from B fits(2) obtain st1' st2' where
    b1: "DisableRenderTarget (example_enabled 0) GetContext (Some 0) = Inr st1'" and
    b2: "Clear st1' GetContext CLEAR_COLOUR_BUFFER 10 20 30 255 0 0 = Inr st2'" and
    b3: "\<forall>i<4. load (memory st2') (fst (0 :: nat, 0 :: nat), snd (0 :: nat, 0 :: nat) + 4 * i) 4
                  = Inr (u32_bytes (clear_colour 10 20 30 255))" and
    b4: "\<forall>h' rt'. h' < length (render_targets (example_enabled 0)) \<and>
              render_targets (example_enabled 0) ! h' = Some rt' \<longrightarrow>
           (\<forall>b \<in> set (plane_blocks (rt_m_RenderBuffer rt')).
              block (memory st2') b = block (memory (example_enabled 0)) b)"
    by (simp only: if_True) blast
  have t1: "st1' = example_state" using b1 EnableRenderTarget_example(3) by simp
  have t2: "st2' = example_cleared_default" using b2 t1 Clear_example_default(1) by simp
  from b3 have b5: "load (memory example_cleared_default) (0, 12) 4
      = Inr (u32_bytes (clear_colour 10 20 30 255))"
    unfolding t2 by (auto dest: spec [of _ 3])
  from b4 2(2) 3(2) tb
  have b6: "block (memory example_cleared_default) 4 = block (memory (example_enabled 0)) 4"
    unfolding t2 by blast
  from C short obtain st1'' where
    c1: "EnableRenderTarget example_state GetContext (Some 1) = Inr st1''" and
    c2: "Clear st1'' GetContext CLEAR_COLOUR_BUFFER 10 20 30 255 0 0 = Inl UndefinedBehaviour"
    by (simp only: if_False) blast
  have u1: "st1'' = example_enabled 1" using c1 EnableRenderTarget_example(2) by simp
  show ?thesis
    using a1 a2 a5 a6 b1 b2 b5 b6 c1 c2 unfolding s1 s2 t1 t2 u1
    by blast
qed

text \<open>
  Claim C7 reads: for every open device whose active plane set has width w and
  height h, \<^verbatim>\<open>Clear\<close> with the colour flag writes the packed word into every one of the
  w * h pixel words of the active colour plane. \<^verbatim>\<open>Clear\<close> takes the number of words from
  \<^verbatim>\<open>gdevice.m_DisplayWidth * gdevice.m_DisplayHeight\<close> whatever plane set is active, while
  \<^verbatim>\<open>NewRenderTarget\<close> sizes the planes by the width and height of the target. With the
  2 x 2 display and the 3 x 3 render target 0 enabled, only the first four of the nine
  pixel words are written (the bytes from offset 16 on keep their old value 0x11);
  with the 1 x 1 render target 1 enabled the second word written lies outside the
  4-byte plane.
\<close>

theorem Clear_on_render_target_uses_display_size:
  "EnableRenderTarget example_state GetContext (Some 0) = Inr (example_enabled 0) \<and>
   Clear (example_enabled 0) GetContext CLEAR_COLOUR_BUFFER 10 20 30 255 0 0
     = Inr example_cleared_target \<and>
   load (memory example_cleared_target) (4, 12) 4 = Inr (u32_bytes 0x0A141EFF) \<and>
   load (memory example_cleared_target) (4, 16) 4 = Inr [0x11, 0x11, 0x11, 0x11] \<and>
   load (memory example_cleared_target) (4, 16) 4 \<noteq> Inr (u32_bytes 0x0A141EFF) \<and>
   EnableRenderTarget example_state GetContext (Some 1) = Inr (example_enabled 1) \<and>
   Clear (example_enabled 1) GetContext CLEAR_COLOUR_BUFFER 10 20 30 255 0 0
     = Inl UndefinedBehaviour"
proof -
  have "load (memory example_cleared_target) (4, 12) 4 = Inr (u32_bytes 0x0A141EFF) \<and>
        load (memory example_cleared_target) (4, 16) 4 = Inr [0x11, 0x11, 0x11, 0x11] \<and>
        load (memory example_cleared_target) (4, 16) 4 \<noteq> Inr (u32_bytes 0x0A141EFF)"
    by code_simp
  then show ?thesis
    using EnableRenderTarget_example(1,2) Clear_example_target Clear_example_small_target
    by blast
qed

subsection \<open>The allocation loop of DrawElements\<close>

lemma DrawElements_alloc_eq:
  "DrawElements_alloc count i st =
     Inr (if 0 < vs_m_Size (m_VertexStreams (gdevice st) ! i)
          then st\<lparr>memory := memory st @
                     [Some (replicate (unat (ucast (vs_m_Size (m_VertexStreams (gdevice st) ! i)) * count)) 0)],
                  gdevice := (gdevice st)\<lparr>m_VertexStreams :=
                    (m_VertexStreams (gdevice st))[i :=
                       (m_VertexStreams (gdevice st) ! i)\<lparr>vs_m_Buffer := Some (length (memory st), 0)\<rparr>]\<rparr>\<rparr>
          else st)"
  by (simp add: DrawElements_alloc_def Let_def new_char_def)

lemma alloc_loop_Suc:
  "for_upto (Suc k) (DrawElements_alloc count) st = Inr st1 \<longleftrightarrow>
     (\<exists>st0. for_upto k (DrawElements_alloc count) st = Inr st0 \<and>
        st1 = (if 0 < vs_m_Size (m_VertexStreams (gdevice st0) ! k)
          then st0\<lparr>memory := memory st0 @
                     [Some (replicate (unat (ucast (vs_m_Size (m_VertexStreams (gdevice st0) ! k)) * count)) 0)],
                  gdevice := (gdevice st0)\<lparr>m_VertexStreams :=
                    (m_VertexStreams (gdevice st0))[k :=
                       (m_VertexStreams (gdevice st0) ! k)\<lparr>vs_m_Buffer := Some (length (memory st0), 0)\<rparr>]\<rparr>\<rparr>
          else st0))"
  by (auto simp: DrawElements_alloc_eq split: sum.splits)

lemma alloc_loop_succeeds: "\<exists>st1. for_upto k (DrawElements_alloc count) st = Inr st1"
  by (induction k) (auto simp: DrawElements_alloc_eq)

lemma alloc_loop_length:
  "for_upto k (DrawElements_alloc count) st = Inr st1 \<Longrightarrow>
     length (m_VertexStreams (gdevice st1)) = length (m_VertexStreams (gdevice st))"
proof (induction k arbitrary: st1)
  case 0 then show ?case by simp
next
  case (Suc k)
  then show ?case unfolding alloc_loop_Suc by (auto split: if_splits)
qed

lemma alloc_loop_device:
  "for_upto k (DrawElements_alloc count) st = Inr st1 \<Longrightarrow>
     (gdevice st1)\<lparr>m_VertexStreams := m_VertexStreams (gdevice st)\<rparr> = gdevice st \<and>
     render_targets st1 = render_targets st"
proof (induction k arbitrary: st1)
  case 0 then show ?case by simp
next
  case (Suc k)
  then show ?case unfolding alloc_loop_Suc by (auto split: if_splits)
qed

lemma alloc_loop_memory:
  "for_upto k (DrawElements_alloc count) st = Inr st1 \<Longrightarrow>
     length (memory st) \<le> length (memory st1) \<and>
     (\<forall>b<length (memory st). memory st1 ! b = memory st ! b)"
proof (induction k arbitrary: st1)
  case 0 then show ?case by simp
next
  case (Suc k)
  then show ?case unfolding alloc_loop_Suc by (auto split: if_splits simp: nth_append)
qed

lemma alloc_loop_fields:
  "for_upto k (DrawElements_alloc count) st = Inr st1 \<Longrightarrow>
     vs_m_Source (m_VertexStreams (gdevice st1) ! j) = vs_m_Source (m_VertexStreams (gdevice st) ! j) \<and>
     vs_m_Size (m_VertexStreams (gdevice st1) ! j) = vs_m_Size (m_VertexStreams (gdevice st) ! j) \<and>
     vs_m_Stride (m_VertexStreams (gdevice st1) ! j) = vs_m_Stride (m_VertexStreams (gdevice st) ! j)"
proof (induction k arbitrary: st1)
  case 0 then show ?case by simp
next
  case (Suc k)
  from Suc.prems obtain st0 where st0: "for_upto k (DrawElements_alloc count) st = Inr st0"
    and st1: "st1 = (if 0 < vs_m_Size (m_VertexStreams (gdevice st0) ! k)
          then st0\<lparr>memory := memory st0 @
                     [Some (replicate (unat (ucast (vs_m_Size (m_VertexStreams (gdevice st0) ! k)) * count)) 0)],
                  gdevice := (gdevice st0)\<lparr>m_VertexStreams :=
                    (m_VertexStreams (gdevice st0))[k :=
                       (m_VertexStreams (gdevice st0) ! k)\<lparr>vs_m_Buffer := Some (length (memory st0), 0)\<rparr>]\<rparr>\<rparr>
          else st0)"
    unfolding alloc_loop_Suc by blast
  show ?case
    using Suc.IH [OF st0]
    by (cases "k < length (m_VertexStreams (gdevice st0))"; cases "j = k")
       (simp_all add: st1 list_update_beyond)
qed

lemma alloc_loop_inactive:
  "for_upto k (DrawElements_alloc count) st = Inr st1 \<Longrightarrow>
     \<not> (j < k \<and> 0 < vs_m_Size (m_VertexStreams (gdevice st) ! j)) \<Longrightarrow>
     m_VertexStreams (gdevice st1) ! j = m_VertexStreams (gdevice st) ! j"
proof (induction k arbitrary: st1)
  case 0 then show ?case by simp
next
  case (Suc k)
  from Suc.prems(1) obtain st0 where st0: "for_upto k (DrawElements_alloc count) st = Inr st0"
    and st1: "st1 = (if 0 < vs_m_Size (m_VertexStreams (gdevice st0) ! k)
          then st0\<lparr>memory := memory st0 @
                     [Some (replicate (unat (ucast (vs_m_Size (m_VertexStreams (gdevice st0) ! k)) * count)) 0)],
                  gdevice := (gdevice st0)\<lparr>m_VertexStreams :=
                    (m_VertexStreams (gdevice st0))[k :=
                       (m_VertexStreams (gdevice st0) ! k)\<lparr>vs_m_Buffer := Some (length (memory st0), 0)\<rparr>]\<rparr>\<rparr>
          else st0)"
    unfolding alloc_loop_Suc by blast
  have sz: "vs_m_Size (m_VertexStreams (gdevice st0) ! k) = vs_m_Size (m_VertexStreams (gdevice st) ! k)"
    using alloc_loop_fields [OF st0] by simp
  have ih: "m_VertexStreams (gdevice st0) ! j = m_VertexStreams (gdevice st) ! j"
    using Suc.IH [OF st0] Suc.prems(2) by simp
  show ?case
    using ih sz Suc.prems(2)
    by (cases "k < length (m_VertexStreams (gdevice st0))"; cases "j = k")
       (simp_all add: st1 list_update_beyond)
qed

text \<open>The buffer of an active stream is a fresh zero-filled block of its own.\<close>

lemma alloc_loop_active:
  "for_upto k (DrawElements_alloc count) st = Inr st1 \<Longrightarrow>
     k \<le> length (m_VertexStreams (gdevice st)) \<Longrightarrow>
     j < k \<Longrightarrow> 0 < vs_m_Size (m_VertexStreams (gdevice st) ! j) \<Longrightarrow>
     \<exists>b. vs_m_Buffer (m_VertexStreams (gdevice st1) ! j) = Some (b, 0) \<and>
         length (memory st) \<le> b \<and> b < length (memory st1) \<and>
         memory st1 ! b = Some (replicate
            (unat (ucast (vs_m_Size (m_VertexStreams (gdevice st) ! j)) * count)) 0)"
proof (induction k arbitrary: st1)
  case 0 then show ?case by simp
next
  case (Suc k)
  let ?S = "m_VertexStreams (gdevice st)"
  from Suc.prems(1) obtain st0 where st0: "for_upto k (DrawElements_alloc count) st = Inr st0"
    and st1: "st1 = (if 0 < vs_m_Size (m_VertexStreams (gdevice st0) ! k)
          then st0\<lparr>memory := memory st0 @
                     [Some (replicate (unat (ucast (vs_m_Size (m_VertexStreams (gdevice st0) ! k)) * count)) 0)],
                  gdevice := (gdevice st0)\<lparr>m_VertexStreams :=
                    (m_VertexStreams (gdevice st0))[k :=
                       (m_VertexStreams (gdevice st0) ! k)\<lparr>vs_m_Buffer := Some (length (memory st0), 0)\<rparr>]\<rparr>\<rparr>
          else st0)"
    unfolding alloc_loop_Suc by blast
  let ?T = "m_VertexStreams (gdevice st0)"
  have sz: "vs_m_Size (?T ! k) = vs_m_Size (?S ! k)"
    using alloc_loop_fields [OF st0] by simp
  have len: "length ?T = length ?S" using st0 by (rule alloc_loop_length)
  have kl: "k < length ?T" using Suc.prems(2) len by simp
  have mem: "length (memory st) \<le> length (memory st0)"
    using alloc_loop_memory [OF st0] by simp
  show ?case
  proof (cases "j = k")
    case True
    then show ?thesis using Suc.prems(4) sz kl mem by (simp add: st1)
  next
    case False
    then have jk: "j < k" using Suc.prems(3) by simp
    from Suc.IH [OF st0 _ jk Suc.prems(4)] Suc.prems(2)
    obtain b where b: "vs_m_Buffer (?T ! j) = Some (b, 0)" "length (memory st) \<le> b"
      "b < length (memory st0)"
      "memory st0 ! b = Some (replicate (unat (ucast (vs_m_Size (?S ! j)) * count)) 0)"
      by auto
    show ?thesis using b False by (simp add: st1 nth_append)
  qed
qed

lemma alloc_loop_distinct:
  "for_upto k (DrawElements_alloc count) st = Inr st1 \<Longrightarrow>
     k \<le> length (m_VertexStreams (gdevice st)) \<Longrightarrow>
     j < k \<Longrightarrow> j' < k \<Longrightarrow> j \<noteq> j' \<Longrightarrow>
     0 < vs_m_Size (m_VertexStreams (gdevice st) ! j) \<Longrightarrow>
     0 < vs_m_Size (m_VertexStreams (gdevice st) ! j') \<Longrightarrow>
     vs_m_Buffer (m_VertexStreams (gdevice st1) ! j) \<noteq> vs_m_Buffer (m_VertexStreams (gdevice st1) ! j')"
proof (induction k arbitrary: st1 j j')
  case 0 then show ?case by simp
next
  case (Suc k)
  let ?S = "m_VertexStreams (gdevice st)"
  from Suc.prems(1) obtain st0 where st0: "for_upto k (DrawElements_alloc count) st = Inr st0"
    and st1: "st1 = (if 0 < vs_m_Size (m_VertexStreams (gdevice st0) ! k)
          then st0\<lparr>memory := memory st0 @
                     [Some (replicate (unat (ucast (vs_m_Size (m_VertexStreams (gdevice st0) ! k)) * count)) 0)],
                  gdevice := (gdevice st0)\<lparr>m_VertexStreams :=
                    (m_VertexStreams (gdevice st0))[k :=
                       (m_VertexStreams (gdevice st0) ! k)\<lparr>vs_m_Buffer := Some (length (memory st0), 0)\<rparr>]\<rparr>\<rparr>
          else st0)"
    unfolding alloc_loop_Suc by blast
  let ?T = "m_VertexStreams (gdevice st0)"
  have sz: "vs_m_Size (?T ! k) = vs_m_Size (?S ! k)"
    using alloc_loop_fields [OF st0] by simp
  have len: "length ?T = length ?S" using st0 by (rule alloc_loop_length)
  have kl: "k < length ?T" "k \<le> length ?S" using Suc.prems(2) len by simp_all
  have old: "\<And>i. i < k \<Longrightarrow> 0 < vs_m_Size (?S ! i) \<Longrightarrow>
        vs_m_Buffer (?T ! i) \<noteq> Some (length (memory st0), 0)"
    using alloc_loop_active [OF st0 kl(2)] by fastforce
  consider "j = k" "j' < k" | "j' = k" "j < k" | "j < k" "j' < k"
    using Suc.prems(3,4,5) by linarith
  then show ?case
  proof cases
    case 1
    then show ?thesis using old [of j'] Suc.prems(6,7) sz kl by (simp add: st1)
  next
    case 2
    then show ?thesis using old [of j] Suc.prems(6,7) sz kl by (simp add: st1)
  next
    case 3
    then show ?thesis
      using Suc.IH [OF st0 kl(2) 3 Suc.prems(5,6,7)] kl by (simp add: st1)
  qed
qed

subsection \<open>The gather loop of DrawElements\<close>

text \<open>One copy of the inner loop.\<close>

lemma DrawElements_copy_InrD:
  assumes "DrawElements_copy i index j s = Inr s'"
    and "0 < vs_m_Size (m_VertexStreams (gdevice s) ! j)"
  shows "\<exists>b off src bs data.
           vs_m_Buffer (m_VertexStreams (gdevice s) ! j) = Some (b, off) \<and>
           vs_m_Source (m_VertexStreams (gdevice s) ! j) = Some src \<and>
           block (memory s) b = Some bs \<and>
           load (memory s)
             (fst src, snd src + unat (index * ucast (vs_m_Stride (m_VertexStreams (gdevice s) ! j))))
             (unat (vs_m_Size (m_VertexStreams (gdevice s) ! j))) = Inr data \<and>
           off + unat (of_nat i * ucast (vs_m_Size (m_VertexStreams (gdevice s) ! j)) :: 32 word)
             + unat (vs_m_Size (m_VertexStreams (gdevice s) ! j)) \<le> length bs \<and>
           s' = s\<lparr>memory := (memory s)[b := Some (overwrite bs
                  (off + unat (of_nat i * ucast (vs_m_Size (m_VertexStreams (gdevice s) ! j)) :: 32 word))
                  data)]\<rparr>"
proof -
  let ?vs = "m_VertexStreams (gdevice s) ! j"
  let ?roff = "unat (of_nat i * ucast (vs_m_Size ?vs) :: 32 word)"
  let ?soff = "unat (index * ucast (vs_m_Stride ?vs))"
  from assms obtain dst src H where
    dst: "ptr_add (vs_m_Buffer ?vs) ?roff = Inr dst"
    and src: "ptr_add (vs_m_Source ?vs) ?soff = Inr src"
    and cp: "memcpy (memory s) dst src (unat (vs_m_Size ?vs)) = Inr H"
    and s': "s' = s\<lparr>memory := H\<rparr>"
    by (auto simp: DrawElements_copy_def Let_def split: sum.splits)
  from cp obtain d sp data where d: "dst = Some d" "src = Some sp"
    "load (memory s) sp (unat (vs_m_Size ?vs)) = Inr data" "store (memory s) d data = Inr H"
    using assms(2) by (auto dest!: memcpy_InrD simp: unat_gt_0 word_greater_zero_iff)
  from dst d(1) obtain b off where b: "vs_m_Buffer ?vs = Some (b, off)" "d = (b, off + ?roff)"
    by (auto dest!: ptr_add_InrD)
  from src d(2) obtain sb so where sb: "vs_m_Source ?vs = Some (sb, so)" "sp = (sb, so + ?soff)"
    by (auto dest!: ptr_add_InrD)
  have len: "length data = unat (vs_m_Size ?vs)" using d(3) by (rule load_length)
  from d(4) b(2) obtain bs where bs: "block (memory s) b = Some bs"
    "off + ?roff + length data \<le> length bs"
    "H = (memory s)[b := Some (overwrite bs (off + ?roff) data)]"
    by (auto dest!: store_InrD)
  show ?thesis
    using b(1) sb bs d(3) len s' by auto
qed

lemma DrawElements_copy_inactive:
  "\<not> 0 < vs_m_Size (m_VertexStreams (gdevice s) ! j) \<Longrightarrow> DrawElements_copy i index j s = Inr s"
  by (simp add: DrawElements_copy_def Let_def)

text \<open>A copy leaves the device and every block below \<open>L\<close> as they are.\<close>

lemma DrawElements_copy_frame:
  assumes "DrawElements_copy i index j s = Inr s'"
    and "0 < vs_m_Size (m_VertexStreams (gdevice s) ! j) \<longrightarrow>
           (\<exists>b. vs_m_Buffer (m_VertexStreams (gdevice s) ! j) = Some (b, 0) \<and> L \<le> b)"
  shows "gdevice s' = gdevice s \<and> render_targets s' = render_targets s \<and>
         length (memory s') = length (memory s) \<and>
         (\<forall>b<L. block (memory s') b = block (memory s) b)"
proof (cases "0 < vs_m_Size (m_VertexStreams (gdevice s) ! j)")
  case False
  then show ?thesis using assms(1) by (simp add: DrawElements_copy_inactive)
next
  case True
  from DrawElements_copy_InrD [OF assms(1) True] assms(2) True
  show ?thesis by auto
qed

lemma copy_loop_frame:
  assumes "for_upto m (DrawElements_copy i index) s = Inr s'"
    and "\<forall>j<m. 0 < vs_m_Size (m_VertexStreams (gdevice s) ! j) \<longrightarrow>
           (\<exists>b. vs_m_Buffer (m_VertexStreams (gdevice s) ! j) = Some (b, 0) \<and> L \<le> b)"
  shows "gdevice s' = gdevice s \<and> render_targets s' = render_targets s \<and>
         length (memory s') = length (memory s) \<and>
         (\<forall>b<L. block (memory s') b = block (memory s) b)"
  using assms
proof (induction m arbitrary: s')
  case 0
  then show ?case by simp
next
  case (Suc m)
  from Suc.prems(1) obtain s0 where s0: "for_upto m (DrawElements_copy i index) s = Inr s0"
    and step: "DrawElements_copy i index m s0 = Inr s'"
    by (auto split: sum.splits)
  have ih: "gdevice s0 = gdevice s \<and> render_targets s0 = render_targets s \<and>
         length (memory s0) = length (memory s) \<and>
         (\<forall>b<L. block (memory s0) b = block (memory s) b)"
    using Suc.IH [OF s0] Suc.prems(2) by simp
  have "0 < vs_m_Size (m_VertexStreams (gdevice s0) ! m) \<longrightarrow>
           (\<exists>b. vs_m_Buffer (m_VertexStreams (gdevice s0) ! m) = Some (b, 0) \<and> L \<le> b)"
    using Suc.prems(2) ih by simp
  from DrawElements_copy_frame [OF step this] ih show ?case by simp
qed

lemma DrawElements_gather_InrD:
  "DrawElements_gather type ib i s = Inr s' \<Longrightarrow>
     \<exists>index. GetIndex type ib (of_nat i) = Inr index \<and>
       for_upto MAX_VERTEX_STREAM_COUNT (DrawElements_copy i index) s = Inr s'"
  by (auto simp: DrawElements_gather_def split: sum.splits)

lemma gather_loop_frame:
  assumes "for_upto n (DrawElements_gather type ib) s = Inr s'"
    and "\<forall>j<MAX_VERTEX_STREAM_COUNT. 0 < vs_m_Size (m_VertexStreams (gdevice s) ! j) \<longrightarrow>
           (\<exists>b. vs_m_Buffer (m_VertexStreams (gdevice s) ! j) = Some (b, 0) \<and> L \<le> b)"
  shows "gdevice s' = gdevice s \<and> render_targets s' = render_targets s \<and>
         length (memory s') = length (memory s) \<and>
         (\<forall>b<L. block (memory s') b = block (memory s) b)"
  using assms
proof (induction n arbitrary: s')
  case 0
  then show ?case by simp
next
  case (Suc n)
  from Suc.prems(1) obtain s0 where s0: "for_upto n (DrawElements_gather type ib) s = Inr s0"
    and g: "DrawElements_gather type ib n s0 = Inr s'"
    by (auto split: sum.splits)
  from g obtain index where
    step: "for_upto MAX_VERTEX_STREAM_COUNT (DrawElements_copy n index) s0 = Inr s'"
    by (auto dest: DrawElements_gather_InrD)
  have ih: "gdevice s0 = gdevice s \<and> render_targets s0 = render_targets s \<and>
         length (memory s0) = length (memory s) \<and>
         (\<forall>b<L. block (memory s0) b = block (memory s) b)"
    using Suc.IH [OF s0 Suc.prems(2)] by simp
  have "\<forall>j<MAX_VERTEX_STREAM_COUNT. 0 < vs_m_Size (m_VertexStreams (gdevice s0) ! j) \<longrightarrow>
           (\<exists>b. vs_m_Buffer (m_VertexStreams (gdevice s0) ! j) = Some (b, 0) \<and> L \<le> b)"
    using ih Suc.prems(2) by simp
  from copy_loop_frame [OF step this] ih show ?case by simp
qed

lemma DrawElements_InrD:
  "DrawElements st context count type index_buffer = Inr st' \<Longrightarrow>
     \<exists>ib st1. index_buffer = Some ib \<and>
       for_upto MAX_VERTEX_STREAM_COUNT (DrawElements_alloc count) st = Inr st1 \<and>
       for_upto (unat count) (DrawElements_gather type ib) st1 = Inr st'"
  by (auto simp: DrawElements_def split: if_splits option.splits sum.splits)

lemma DrawElements_frame_state:
  assumes "DrawElements st context count type index_buffer = Inr st'"
    and "length (m_VertexStreams (gdevice st)) = MAX_VERTEX_STREAM_COUNT"
  shows "(gdevice st')\<lparr>m_VertexStreams := m_VertexStreams (gdevice st)\<rparr> = gdevice st \<and>
         render_targets st' = render_targets st \<and>
         length (m_VertexStreams (gdevice st')) = MAX_VERTEX_STREAM_COUNT \<and>
         (\<forall>j<MAX_VERTEX_STREAM_COUNT.
            vs_m_Source (m_VertexStreams (gdevice st') ! j) = vs_m_Source (m_VertexStreams (gdevice st) ! j) \<and>
            vs_m_Size (m_VertexStreams (gdevice st') ! j) = vs_m_Size (m_VertexStreams (gdevice st) ! j) \<and>
            vs_m_Stride (m_VertexStreams (gdevice st') ! j) = vs_m_Stride (m_VertexStreams (gdevice st) ! j) \<and>
            (if 0 < vs_m_Size (m_VertexStreams (gdevice st) ! j)
             then \<exists>b. vs_m_Buffer (m_VertexStreams (gdevice st') ! j) = Some (b, 0) \<and>
                      length (memory st) \<le> b \<and> b < length (memory st')
             else vs_m_Buffer (m_VertexStreams (gdevice st') ! j)
                    = vs_m_Buffer (m_VertexStreams (gdevice st) ! j))) \<and>
         (\<forall>b<length (memory st). block (memory st') b = block (memory st) b)"
proof -
  let ?N = MAX_VERTEX_STREAM_COUNT
  from DrawElements_InrD [OF assms(1)] obtain ib st1 where
    a: "for_upto ?N (DrawElements_alloc count) st = Inr st1"
    and g: "for_upto (unat count) (DrawElements_gather type ib) st1 = Inr st'"
    by blast
  have le: "?N \<le> length (m_VertexStreams (gdevice st))" using assms(2) by simp
  have fresh: "\<forall>j<?N. 0 < vs_m_Size (m_VertexStreams (gdevice st1) ! j) \<longrightarrow>
           (\<exists>b. vs_m_Buffer (m_VertexStreams (gdevice st1) ! j) = Some (b, 0) \<and> length (memory st) \<le> b)"
    using alloc_loop_active [OF a le] alloc_loop_fields [OF a] by fastforce
  note fr = gather_loop_frame [OF g fresh]
  have dev: "gdevice st' = gdevice st1" and rts: "render_targets st' = render_targets st1"
    and len: "length (memory st') = length (memory st1)"
    and mem: "\<forall>b<length (memory st). block (memory st') b = block (memory st1) b"
    using fr by simp_all
  have 1: "(gdevice st')\<lparr>m_VertexStreams := m_VertexStreams (gdevice st)\<rparr> = gdevice st"
    using alloc_loop_device [OF a] dev by simp
  have 2: "render_targets st' = render_targets st"
    using alloc_loop_device [OF a] rts by simp
  have 3: "length (m_VertexStreams (gdevice st')) = ?N"
    using alloc_loop_length [OF a] dev assms(2) by simp
  have 4: "\<forall>j<?N.
            vs_m_Source (m_VertexStreams (gdevice st') ! j) = vs_m_Source (m_VertexStreams (gdevice st) ! j) \<and>
            vs_m_Size (m_VertexStreams (gdevice st') ! j) = vs_m_Size (m_VertexStreams (gdevice st) ! j) \<and>
            vs_m_Stride (m_VertexStreams (gdevice st') ! j) = vs_m_Stride (m_VertexStreams (gdevice st) ! j) \<and>
            (if 0 < vs_m_Size (m_VertexStreams (gdevice st) ! j)
             then \<exists>b. vs_m_Buffer (m_VertexStreams (gdevice st') ! j) = Some (b, 0) \<and>
                      length (memory st) \<le> b \<and> b < length (memory st')
             else vs_m_Buffer (m_VertexStreams (gdevice st') ! j)
                    = vs_m_Buffer (m_VertexStreams (gdevice st) ! j))"
  proof (intro allI impI)
    fix j assume j: "j < ?N"
    show "vs_m_Source (m_VertexStreams (gdevice st') ! j) = vs_m_Source (m_VertexStreams (gdevice st) ! j) \<and>
            vs_m_Size (m_VertexStreams (gdevice st') ! j) = vs_m_Size (m_VertexStreams (gdevice st) ! j) \<and>
            vs_m_Stride (m_VertexStreams (gdevice st') ! j) = vs_m_Stride (m_VertexStreams (gdevice st) ! j) \<and>
            (if 0 < vs_m_Size (m_VertexStreams (gdevice st) ! j)
             then \<exists>b. vs_m_Buffer (m_VertexStreams (gdevice st') ! j) = Some (b, 0) \<and>
                      length (memory st) \<le> b \<and> b < length (memory st')
             else vs_m_Buffer (m_VertexStreams (gdevice st') ! j)
                    = vs_m_Buffer (m_VertexStreams (gdevice st) ! j))"
    proof (cases "0 < vs_m_Size (m_VertexStreams (gdevice st) ! j)")
      case True
      from alloc_loop_active [OF a le j True] show ?thesis
        using alloc_loop_fields [OF a, of j] True dev len by auto
    next
      case False
      then show ?thesis
        using alloc_loop_inactive [OF a, of j] dev by simp
    qed
  qed
  have 5: "\<forall>b<length (memory st). block (memory st') b = block (memory st) b"
  proof (intro allI impI)
    fix b assume b: "b < length (memory st)"
    have "block (memory st1) b = block (memory st) b"
      using alloc_loop_memory [OF a] b by (simp add: block_def)
    then show "block (memory st') b = block (memory st) b" using mem b by simp
  qed
  show ?thesis using 1 2 3 4 5 by blast
qed

text \<open>
  Claim C9: a \<^verbatim>\<open>DrawElements\<close> call that returns normally leaves the bound programs,
  both register banks, the write masks, the display dimensions, the active-plane
  pointer, the default plane set and the render targets as they were, and of every
  stream slot the source pointer, the recorded size and the stride. It changes the
  transient buffer pointer of the active streams only, each to a block allocated by
  the call, and no array that existed before the call is written.
\<close>

theorem DrawElements_frame:
  assumes "DrawElements st context count type index_buffer = Inr st'"
    and "length (m_VertexStreams (gdevice st)) = MAX_VERTEX_STREAM_COUNT"
  shows "m_VertexProgram (gdevice st') = m_VertexProgram (gdevice st) \<and>
         m_FragmentProgram (gdevice st') = m_FragmentProgram (gdevice st) \<and>
         m_VertexProgramRegisters (gdevice st') = m_VertexProgramRegisters (gdevice st) \<and>
         m_FragmentProgramRegisters (gdevice st') = m_FragmentProgramRegisters (gdevice st) \<and>
         m_RedMask (gdevice st') = m_RedMask (gdevice st) \<and>
         m_GreenMask (gdevice st') = m_GreenMask (gdevice st) \<and>
         m_BlueMask (gdevice st') = m_BlueMask (gdevice st) \<and>
         m_AlphaMask (gdevice st') = m_AlphaMask (gdevice st) \<and>
         m_DepthMask (gdevice st') = m_DepthMask (gdevice st) \<and>
         m_IndexMask (gdevice st') = m_IndexMask (gdevice st) \<and>
         m_StencilMask (gdevice st') = m_StencilMask (gdevice st) \<and>
         m_DisplayWidth (gdevice st') = m_DisplayWidth (gdevice st) \<and>
         m_DisplayHeight (gdevice st') = m_DisplayHeight (gdevice st) \<and>
         m_RenderBuffer (gdevice st') = m_RenderBuffer (gdevice st) \<and>
         m_FrameBuffer (gdevice st') = m_FrameBuffer (gdevice st) \<and>
         m_Opened (gdevice st') = m_Opened (gdevice st) \<and>
         render_targets st' = render_targets st \<and>
         (\<forall>j<MAX_VERTEX_STREAM_COUNT.
            vs_m_Source (m_VertexStreams (gdevice st') ! j) = vs_m_Source (m_VertexStreams (gdevice st) ! j) \<and>
            vs_m_Size (m_VertexStreams (gdevice st') ! j) = vs_m_Size (m_VertexStreams (gdevice st) ! j) \<and>
            vs_m_Stride (m_VertexStreams (gdevice st') ! j) = vs_m_Stride (m_VertexStreams (gdevice st) ! j) \<and>
            (if 0 < vs_m_Size (m_VertexStreams (gdevice st) ! j)
             then \<exists>b. vs_m_Buffer (m_VertexStreams (gdevice st') ! j) = Some (b, 0) \<and>
                      length (memory st) \<le> b \<and> b < length (memory st')
             else vs_m_Buffer (m_VertexStreams (gdevice st') ! j)
                    = vs_m_Buffer (m_VertexStreams (gdevice st) ! j))) \<and>
         (\<forall>b<length (memory st). block (memory st') b = block (memory st) b)"
proof -
  note fr = DrawElements_frame_state [OF assms]
  have eq: "(gdevice st')\<lparr>m_VertexStreams := m_VertexStreams (gdevice st)\<rparr> = gdevice st"
    using fr by (rule conjunct1)
  have f:
    "m_VertexProgram (gdevice st') = m_VertexProgram (gdevice st)"
    "m_FragmentProgram (gdevice st') = m_FragmentProgram (gdevice st)"
    "m_VertexProgramRegisters (gdevice st') = m_VertexProgramRegisters (gdevice st)"
    "m_FragmentProgramRegisters (gdevice st') = m_FragmentProgramRegisters (gdevice st)"
    "m_RedMask (gdevice st') = m_RedMask (gdevice st)"
    "m_GreenMask (gdevice st') = m_GreenMask (gdevice st)"
    "m_BlueMask (gdevice st') = m_BlueMask (gdevice st)"
    "m_AlphaMask (gdevice st') = m_AlphaMask (gdevice st)"
    "m_DepthMask (gdevice st') = m_DepthMask (gdevice st)"
    "m_IndexMask (gdevice st') = m_IndexMask (gdevice st)"
    "m_StencilMask (gdevice st') = m_StencilMask (gdevice st)"
    "m_DisplayWidth (gdevice st') = m_DisplayWidth (gdevice st)"
    "m_DisplayHeight (gdevice st') = m_DisplayHeight (gdevice st)"
    "m_RenderBuffer (gdevice st') = m_RenderBuffer (gdevice st)"
    "m_FrameBuffer (gdevice st') = m_FrameBuffer (gdevice st)"
    "m_Opened (gdevice st') = m_Opened (gdevice st)"
    using arg_cong [OF eq, of m_VertexProgram]
          arg_cong [OF eq, of m_FragmentProgram]
          arg_cong [OF eq, of m_VertexProgramRegisters]
          arg_cong [OF eq, of m_FragmentProgramRegisters]
          arg_cong [OF eq, of m_RedMask]
          arg_cong [OF eq, of m_GreenMask]
          arg_cong [OF eq, of m_BlueMask]
          arg_cong [OF eq, of m_AlphaMask]
          arg_cong [OF eq, of m_DepthMask]
          arg_cong [OF eq, of m_IndexMask]
          arg_cong [OF eq, of m_StencilMask]
          arg_cong [OF eq, of m_DisplayWidth]
          arg_cong [OF eq, of m_DisplayHeight]
          arg_cong [OF eq, of m_RenderBuffer]
          arg_cong [OF eq, of m_FrameBuffer]
          arg_cong [OF eq, of m_Opened]
    by simp_all
  show ?thesis
    using f fr by blast
qed

theorem DrawElements_frame_witness:
  "DrawElements example_bound GetContext 3 TYPE_UNSIGNED_SHORT (Some example_indices)
     = Inr example_drawn \<and>
   m_RenderBuffer (gdevice example_drawn) = m_RenderBuffer (gdevice example_bound) \<and>
   m_DisplayWidth (gdevice example_drawn) = m_DisplayWidth (gdevice example_bound) \<and>
   vs_m_Source (m_VertexStreams (gdevice example_drawn) ! 1)
     = vs_m_Source (m_VertexStreams (gdevice example_bound) ! 1) \<and>
   vs_m_Stride (m_VertexStreams (gdevice example_drawn) ! 1)
     = vs_m_Stride (m_VertexStreams (gdevice example_bound) ! 1) \<and>
   block (memory example_drawn) 12 = block (memory example_bound) 12"
proof -
  have run: "DrawElements example_bound GetContext 3 TYPE_UNSIGNED_SHORT (Some example_indices)
     = Inr example_drawn"
    by code_simp
  have len: "length (m_VertexStreams (gdevice example_bound)) = MAX_VERTEX_STREAM_COUNT"
    by code_simp
  have j: "(1 :: nat) < MAX_VERTEX_STREAM_COUNT" and b: "(12 :: nat) < length (memory example_bound)"
    by code_simp+
  show ?thesis
    using DrawElements_frame [OF run len] run j b by blast
qed

subsection \<open>What the gather loop copies\<close>

lemma draw_layout_buffer:
  "draw_layout L dev \<Longrightarrow> j < length (m_VertexStreams dev) \<Longrightarrow>
     0 < vs_m_Size (m_VertexStreams dev ! j) \<Longrightarrow>
     \<exists>b. vs_m_Buffer (m_VertexStreams dev ! j) = Some (b, 0) \<and> L \<le> b"
  unfolding draw_layout_def by blast

lemma draw_layout_distinct:
  "draw_layout L dev \<Longrightarrow> j < length (m_VertexStreams dev) \<Longrightarrow>
     j' < length (m_VertexStreams dev) \<Longrightarrow> j \<noteq> j' \<Longrightarrow>
     0 < vs_m_Size (m_VertexStreams dev ! j) \<Longrightarrow> 0 < vs_m_Size (m_VertexStreams dev ! j') \<Longrightarrow>
     vs_m_Buffer (m_VertexStreams dev ! j) \<noteq> vs_m_Buffer (m_VertexStreams dev ! j')"
  unfolding draw_layout_def by blast

lemma draw_layout_source:
  "draw_layout L dev \<Longrightarrow> j < length (m_VertexStreams dev) \<Longrightarrow>
     vs_m_Source (m_VertexStreams dev ! j) = Some p \<Longrightarrow> fst p < L"
  unfolding draw_layout_def by blast

lemma copy_loop_row:
  assumes "for_upto m (DrawElements_copy i index) s = Inr s'"
    and "draw_layout L (gdevice s)"
    and "m \<le> length (m_VertexStreams (gdevice s))"
    and "j0 < length (m_VertexStreams (gdevice s))"
    and "0 < vs_m_Size (m_VertexStreams (gdevice s) ! j0)"
    and "vs_m_Buffer (m_VertexStreams (gdevice s) ! j0) = Some (b, 0)"
  shows "if j0 < m
         then (\<exists>bs src data. block (memory s) b = Some bs \<and>
                 vs_m_Source (m_VertexStreams (gdevice s) ! j0) = Some src \<and>
                 load (memory s)
                   (fst src, snd src + unat (index * ucast (vs_m_Stride (m_VertexStreams (gdevice s) ! j0))))
                   (unat (vs_m_Size (m_VertexStreams (gdevice s) ! j0))) = Inr data \<and>
                 unat (of_nat i * ucast (vs_m_Size (m_VertexStreams (gdevice s) ! j0)) :: 32 word)
                   + unat (vs_m_Size (m_VertexStreams (gdevice s) ! j0)) \<le> length bs \<and>
                 block (memory s') b = Some (overwrite bs
                   (unat (of_nat i * ucast (vs_m_Size (m_VertexStreams (gdevice s) ! j0)) :: 32 word)) data))
         else block (memory s') b = block (memory s) b"
  using assms(1,3)
proof (induction m arbitrary: s')
  case 0
  then show ?case by simp
next
  case (Suc m)
  let ?S = "m_VertexStreams (gdevice s)"
  from Suc.prems(1) obtain s0 where s0: "for_upto m (DrawElements_copy i index) s = Inr s0"
    and step: "DrawElements_copy i index m s0 = Inr s'"
    by (auto split: sum.splits)
  have ml: "m < length ?S" using Suc.prems(2) by simp
  have fresh: "\<forall>j<m. 0 < vs_m_Size (?S ! j) \<longrightarrow> (\<exists>b. vs_m_Buffer (?S ! j) = Some (b, 0) \<and> L \<le> b)"
    using draw_layout_buffer [OF assms(2)] ml by simp
  have fr: "gdevice s0 = gdevice s" "\<forall>b<L. block (memory s0) b = block (memory s) b"
    using copy_loop_frame [OF s0 fresh] by simp_all
  note IH = Suc.IH [OF s0 less_imp_le [OF ml]]
  show ?case
  proof (cases "0 < vs_m_Size (?S ! m)")
    case False
    then have eq: "s' = s0" using step fr(1) by (simp add: DrawElements_copy_inactive)
    have "j0 \<noteq> m" using False assms(5) by auto
    then have e: "(j0 < Suc m) = (j0 < m)" by auto
    show ?thesis unfolding e eq by (rule IH)
  next
    case True
    have vs: "m_VertexStreams (gdevice s0) ! m = ?S ! m" using fr(1) by simp
    from DrawElements_copy_InrD [OF step, unfolded vs, OF True]
    obtain bm off src bs data where c:
      "vs_m_Buffer (?S ! m) = Some (bm, off)"
      "vs_m_Source (?S ! m) = Some src"
      "block (memory s0) bm = Some bs"
      "load (memory s0) (fst src, snd src + unat (index * ucast (vs_m_Stride (?S ! m))))
         (unat (vs_m_Size (?S ! m))) = Inr data"
      "off + unat (of_nat i * ucast (vs_m_Size (?S ! m)) :: 32 word) + unat (vs_m_Size (?S ! m))
         \<le> length bs"
      "s' = s0\<lparr>memory := (memory s0)[bm := Some (overwrite bs
              (off + unat (of_nat i * ucast (vs_m_Size (?S ! m)) :: 32 word)) data)]\<rparr>"
      by blast
    have off: "off = 0" using draw_layout_buffer [OF assms(2) ml True] c(1) by auto
    have bml: "bm < length (memory s0)" using c(3) by (rule block_Some_less)
    show ?thesis
    proof (cases "j0 = m")
      case True
      then have bm: "bm = b" using c(1) assms(6) by simp
      have b0: "block (memory s0) b = block (memory s) b" using IH True by simp
      have "fst src < L" using assms(2) ml c(2) by (rule draw_layout_source)
      then have "load (memory s0) (fst src, snd src + unat (index * ucast (vs_m_Stride (?S ! m))))
         (unat (vs_m_Size (?S ! m)))
         = load (memory s) (fst src, snd src + unat (index * ucast (vs_m_Stride (?S ! m))))
         (unat (vs_m_Size (?S ! m)))"
        using fr(2) by (intro load_below) simp_all
      then have "block (memory s) b = Some bs \<and>
                 vs_m_Source (?S ! j0) = Some src \<and>
                 load (memory s)
                   (fst src, snd src + unat (index * ucast (vs_m_Stride (?S ! j0))))
                   (unat (vs_m_Size (?S ! j0))) = Inr data \<and>
                 unat (of_nat i * ucast (vs_m_Size (?S ! j0)) :: 32 word)
                   + unat (vs_m_Size (?S ! j0)) \<le> length bs \<and>
                 block (memory s') b = Some (overwrite bs
                   (unat (of_nat i * ucast (vs_m_Size (?S ! j0)) :: 32 word)) data)"
        using True bm b0 c off bml by simp
      then have "\<exists>bs src data. block (memory s) b = Some bs \<and>
                 vs_m_Source (?S ! j0) = Some src \<and>
                 load (memory s)
                   (fst src, snd src + unat (index * ucast (vs_m_Stride (?S ! j0))))
                   (unat (vs_m_Size (?S ! j0))) = Inr data \<and>
                 unat (of_nat i * ucast (vs_m_Size (?S ! j0)) :: 32 word)
                   + unat (vs_m_Size (?S ! j0)) \<le> length bs \<and>
                 block (memory s') b = Some (overwrite bs
                   (unat (of_nat i * ucast (vs_m_Size (?S ! j0)) :: 32 word)) data)"
        by blast
      moreover have "j0 < Suc m" using True by simp
      ultimately show ?thesis by (simp only: if_True)
    next
      case False
      have "vs_m_Buffer (?S ! m) \<noteq> vs_m_Buffer (?S ! j0)"
        using draw_layout_distinct [OF assms(2) ml assms(4) _ \<open>0 < vs_m_Size (?S ! m)\<close> assms(5)] False
        by blast
      then have "bm \<noteq> b" using c(1) off assms(6) by simp
      then have eq: "block (memory s') b = block (memory s0) b" using c(6) by simp
      have e: "(j0 < Suc m) = (j0 < m)" using False by auto
      show ?thesis unfolding e eq by (rule IH)
    qed
  qed
qed

lemma row_offset:
  assumes "n * unat (sz :: 16 word) < 2 ^ 32" and "0 < sz"
  shows "unat (of_nat n * ucast sz :: 32 word) = n * unat sz"
proof -
  have pos: "0 < unat sz" using assms(2) by (simp add: word_less_nat_alt)
  have "n \<le> n * unat sz" using pos by simp
  then have n: "n < 2 ^ 32" using assms(1) by (rule le_less_trans)
  have a: "unat (of_nat n :: 32 word) = n" using n by (simp add: unat_of_nat)
  have b: "unat (ucast sz :: 32 word) = unat sz" by (rule unat_ucast_16_32)
  have "unat (of_nat n :: 32 word) * unat (ucast sz :: 32 word) < 2 ^ LENGTH(32)"
    using assms(1) a b by simp
  then have "unat (of_nat n * ucast sz :: 32 word) = unat (of_nat n :: 32 word) * unat (ucast sz :: 32 word)"
    by (rule unat_mult_lem [THEN iffD1])
  then show ?thesis using a b by simp
qed

lemma gather_loop_rows:
  assumes "for_upto n (DrawElements_gather type ib) s = Inr s'"
    and "draw_layout L (gdevice s)"
    and "length (m_VertexStreams (gdevice s)) = MAX_VERTEX_STREAM_COUNT"
    and "j0 < MAX_VERTEX_STREAM_COUNT"
    and "0 < vs_m_Size (m_VertexStreams (gdevice s) ! j0)"
    and "vs_m_Buffer (m_VertexStreams (gdevice s) ! j0) = Some (b, 0)"
    and "block (memory s) b = Some bs0"
    and "length bs0 < 2 ^ 32"
  shows "\<exists>bs. block (memory s') b = Some bs \<and> length bs = length bs0 \<and>
           n * unat (vs_m_Size (m_VertexStreams (gdevice s) ! j0)) \<le> length bs0 \<and>
           (\<forall>i<n. \<exists>index src.
              GetIndex type ib (of_nat i) = Inr index \<and>
              vs_m_Source (m_VertexStreams (gdevice s) ! j0) = Some src \<and>
              load (memory s)
                (fst src, snd src + unat (index * ucast (vs_m_Stride (m_VertexStreams (gdevice s) ! j0))))
                (unat (vs_m_Size (m_VertexStreams (gdevice s) ! j0)))
              = Inr (take (unat (vs_m_Size (m_VertexStreams (gdevice s) ! j0)))
                       (drop (i * unat (vs_m_Size (m_VertexStreams (gdevice s) ! j0))) bs)))"
  using assms(1)
proof (induction n arbitrary: s')
  case 0
  then show ?case using assms(7) by simp
next
  case (Suc n)
  let ?S = "m_VertexStreams (gdevice s)"
  let ?sz = "unat (vs_m_Size (?S ! j0))"
  let ?stride = "vs_m_Stride (?S ! j0)"
  from Suc.prems obtain s0 where s0: "for_upto n (DrawElements_gather type ib) s = Inr s0"
    and g: "DrawElements_gather type ib n s0 = Inr s'"
    by (auto split: sum.splits)
  from g obtain index where idx: "GetIndex type ib (of_nat n) = Inr index"
    and step: "for_upto MAX_VERTEX_STREAM_COUNT (DrawElements_copy n index) s0 = Inr s'"
    by (auto dest: DrawElements_gather_InrD)
  have fresh: "\<forall>j<MAX_VERTEX_STREAM_COUNT. 0 < vs_m_Size (?S ! j) \<longrightarrow>
      (\<exists>b. vs_m_Buffer (?S ! j) = Some (b, 0) \<and> L \<le> b)"
    using draw_layout_buffer [OF assms(2)] assms(3) by simp
  have fr: "gdevice s0 = gdevice s" "\<forall>b<L. block (memory s0) b = block (memory s) b"
    using gather_loop_frame [OF s0 fresh] by simp_all
  from Suc.IH [OF s0] obtain bs where bs: "block (memory s0) b = Some bs" "length bs = length bs0"
    "n * ?sz \<le> length bs0"
    and rows: "\<forall>i<n. \<exists>index src.
              GetIndex type ib (of_nat i) = Inr index \<and>
              vs_m_Source (?S ! j0) = Some src \<and>
              load (memory s) (fst src, snd src + unat (index * ucast ?stride)) ?sz
              = Inr (take ?sz (drop (i * ?sz) bs))"
    by blast
  have lay0: "draw_layout L (gdevice s0)" using assms(2) fr(1) by simp
  have len0: "MAX_VERTEX_STREAM_COUNT \<le> length (m_VertexStreams (gdevice s0))"
    "j0 < length (m_VertexStreams (gdevice s0))"
    using assms(3,4) fr(1) by simp_all
  have act0: "0 < vs_m_Size (m_VertexStreams (gdevice s0) ! j0)"
    "vs_m_Buffer (m_VertexStreams (gdevice s0) ! j0) = Some (b, 0)"
    using assms(5,6) fr(1) by simp_all
  note row = copy_loop_row [OF step lay0 len0 act0, unfolded fr(1)]
  have "j0 < MAX_VERTEX_STREAM_COUNT" by (rule assms(4))
  with row obtain bs' src data where r:
    "block (memory s0) b = Some bs'"
    "vs_m_Source (?S ! j0) = Some src"
    "load (memory s0) (fst src, snd src + unat (index * ucast ?stride)) ?sz = Inr data"
    "unat (of_nat n * ucast (vs_m_Size (?S ! j0)) :: 32 word) + ?sz \<le> length bs'"
    "block (memory s') b = Some (overwrite bs'
        (unat (of_nat n * ucast (vs_m_Size (?S ! j0)) :: 32 word)) data)"
    by (simp only: if_True) blast
  have bs': "bs' = bs" using r(1) bs(1) by simp
  have "n * ?sz < 2 ^ 32" using bs(3) assms(8) by simp
  then have roff: "unat (of_nat n * ucast (vs_m_Size (?S ! j0)) :: 32 word) = n * ?sz"
    using assms(5) by (rule row_offset)
  have dlen: "length data = ?sz" using r(3) by (rule load_length)
  have fit: "n * ?sz + length data \<le> length bs" using r(4) roff bs' dlen by simp
  have "fst src < L" using assms(2) _ r(2) by (rule draw_layout_source) (use assms(3,4) in simp)
  then have ld: "load (memory s) (fst src, snd src + unat (index * ucast ?stride)) ?sz = Inr data"
    using load_below [OF fr(2), of "(fst src, snd src + unat (index * ucast ?stride))" ?sz] r(3)
    by simp
  let ?new = "overwrite bs (n * ?sz) data"
  have new: "block (memory s') b = Some ?new" using r(5) roff bs' by simp
  have c1: "length ?new = length bs0" using fit bs(2) by simp
  have c2: "Suc n * ?sz \<le> length bs0" using fit dlen bs(2) by simp
  have c3: "\<forall>i<Suc n. \<exists>index src.
              GetIndex type ib (of_nat i) = Inr index \<and>
              vs_m_Source (?S ! j0) = Some src \<and>
              load (memory s) (fst src, snd src + unat (index * ucast ?stride)) ?sz
              = Inr (take ?sz (drop (i * ?sz) ?new))"
  proof (intro allI impI)
    fix i assume i: "i < Suc n"
    show "\<exists>index src.
              GetIndex type ib (of_nat i) = Inr index \<and>
              vs_m_Source (?S ! j0) = Some src \<and>
              load (memory s) (fst src, snd src + unat (index * ucast ?stride)) ?sz
              = Inr (take ?sz (drop (i * ?sz) ?new))"
    proof (cases "i = n")
      case True
      have "take ?sz (drop (n * ?sz) ?new) = data"
        using slice_overwrite_same [OF fit] dlen by simp
      then show ?thesis using True idx r(2) ld by auto
    next
      case False
      then have lt: "i < n" using i by simp
      then have "Suc i * ?sz \<le> n * ?sz" by (intro mult_le_mono1) simp
      then have "i * ?sz + ?sz \<le> n * ?sz" by simp
      then have "take ?sz (drop (i * ?sz) ?new) = take ?sz (drop (i * ?sz) bs)"
        by (rule slice_overwrite_below [OF fit])
      then show ?thesis using rows lt by simp
    qed
  qed
  show ?case using new c1 c2 c3 by blast
qed

lemma alloc_loop_layout:
  assumes "for_upto MAX_VERTEX_STREAM_COUNT (DrawElements_alloc count) st = Inr st1"
    and "length (m_VertexStreams (gdevice st)) = MAX_VERTEX_STREAM_COUNT"
    and "sources_allocated st"
  shows "draw_layout (length (memory st)) (gdevice st1)"
proof -
  let ?N = MAX_VERTEX_STREAM_COUNT
  let ?S = "m_VertexStreams (gdevice st)"
  let ?T = "m_VertexStreams (gdevice st1)"
  have le: "?N \<le> length ?S" using assms(2) by simp
  have len: "length ?T = ?N" using alloc_loop_length [OF assms(1)] assms(2) by simp
  have sz: "\<And>j. vs_m_Size (?T ! j) = vs_m_Size (?S ! j)"
    using alloc_loop_fields [OF assms(1)] by simp
  have src: "\<And>j. vs_m_Source (?T ! j) = vs_m_Source (?S ! j)"
    using alloc_loop_fields [OF assms(1)] by simp
  have 1: "\<forall>j<length ?T. 0 < vs_m_Size (?T ! j) \<longrightarrow>
        (\<exists>b. vs_m_Buffer (?T ! j) = Some (b, 0) \<and> length (memory st) \<le> b)"
    using alloc_loop_active [OF assms(1) le] by (fastforce simp: len sz)
  have 2: "\<forall>j<length ?T. \<forall>j'<length ?T.
        j \<noteq> j' \<and> 0 < vs_m_Size (?T ! j) \<and> 0 < vs_m_Size (?T ! j') \<longrightarrow>
        vs_m_Buffer (?T ! j) \<noteq> vs_m_Buffer (?T ! j')"
    using alloc_loop_distinct [OF assms(1) le] by (simp add: len sz)
  have 3: "\<forall>j<length ?T. \<forall>p. vs_m_Source (?T ! j) = Some p \<longrightarrow> fst p < length (memory st)"
  proof (intro allI impI)
    fix j p assume j: "j < length ?T" and p: "vs_m_Source (?T ! j) = Some p"
    have "?S ! j \<in> set ?S" using j len assms(2) by simp
    then have "case vs_m_Source (?S ! j) of None \<Rightarrow> True | Some p \<Rightarrow> fst p < length (memory st)"
      using assms(3) unfolding sources_allocated_def list_all_iff by blast
    then show "fst p < length (memory st)" using p src by simp
  qed
  show ?thesis unfolding draw_layout_def using 1 2 3 by blast
qed

text \<open>
  Claim C1: after a \<^verbatim>\<open>DrawElements\<close> call that returns normally, for every active stream
  (recorded size above 0) and every draw position \<open>i\<close> below \<open>count\<close>, the \<open>size\<close> bytes of
  the stream's compaction buffer at offset \<open>i * size\<close> are the \<open>size\<close> bytes of the source
  data at \<open>source + index * stride\<close>, \<open>index\<close> being the decoded \<open>i\<close>-th index of the index
  buffer and the product the \<^verbatim>\<open>uint32_t\<close> product of the code. The source pointers point
  into arrays allocated before the call.
\<close>

theorem DrawElements_gathers:
  assumes "DrawElements st context count type index_buffer = Inr st'"
    and "length (m_VertexStreams (gdevice st)) = MAX_VERTEX_STREAM_COUNT"
    and "sources_allocated st"
    and "j < MAX_VERTEX_STREAM_COUNT"
    and "0 < vs_m_Size (m_VertexStreams (gdevice st) ! j)"
    and "i < unat count"
  shows "\<exists>ib index src b data.
           index_buffer = Some ib \<and> GetIndex type ib (of_nat i) = Inr index \<and>
           vs_m_Source (m_VertexStreams (gdevice st) ! j) = Some src \<and>
           vs_m_Buffer (m_VertexStreams (gdevice st') ! j) = Some (b, 0) \<and>
           load (memory st)
             (fst src, snd src + unat (index * ucast (vs_m_Stride (m_VertexStreams (gdevice st) ! j))))
             (unat (vs_m_Size (m_VertexStreams (gdevice st) ! j))) = Inr data \<and>
           load (memory st')
             (b, i * unat (vs_m_Size (m_VertexStreams (gdevice st) ! j)))
             (unat (vs_m_Size (m_VertexStreams (gdevice st) ! j))) = Inr data"
proof -
  let ?N = MAX_VERTEX_STREAM_COUNT
  let ?S = "m_VertexStreams (gdevice st)"
  let ?L = "length (memory st)"
  let ?sz = "unat (vs_m_Size (?S ! j))"
  from DrawElements_InrD [OF assms(1)] obtain ib st1 where
    ib: "index_buffer = Some ib"
    and a: "for_upto ?N (DrawElements_alloc count) st = Inr st1"
    and g: "for_upto (unat count) (DrawElements_gather type ib) st1 = Inr st'"
    by blast
  let ?T = "m_VertexStreams (gdevice st1)"
  have le: "?N \<le> length ?S" using assms(2) by simp
  have lay: "draw_layout ?L (gdevice st1)" using a assms(2,3) by (rule alloc_loop_layout)
  have len1: "length ?T = ?N" using alloc_loop_length [OF a] assms(2) by simp
  have f: "vs_m_Source (?T ! j) = vs_m_Source (?S ! j)" "vs_m_Size (?T ! j) = vs_m_Size (?S ! j)"
    "vs_m_Stride (?T ! j) = vs_m_Stride (?S ! j)"
    using alloc_loop_fields [OF a, of j] by simp_all
  from alloc_loop_active [OF a le assms(4,5)] obtain b where b:
    "vs_m_Buffer (?T ! j) = Some (b, 0)" "?L \<le> b" "b < length (memory st1)"
    "memory st1 ! b = Some (replicate (unat (ucast (vs_m_Size (?S ! j)) * count)) 0)"
    by blast
  let ?bs0 = "replicate (unat (ucast (vs_m_Size (?S ! j)) * count :: 32 word)) (0 :: byte)"
  have blk: "block (memory st1) b = Some ?bs0" using b(3,4) by (simp add: block_def)
  have small: "length ?bs0 < 2 ^ 32"
    using unsigned_less [of "ucast (vs_m_Size (?S ! j)) * count :: 32 word", where 'a = nat]
    by simp
  have act1: "0 < vs_m_Size (?T ! j)" using assms(5) f(2) by simp
  from gather_loop_rows [OF g lay len1 assms(4) act1 b(1) blk small, unfolded f]
  obtain bs where bs: "block (memory st') b = Some bs" "length bs = length ?bs0"
    "unat count * ?sz \<le> length ?bs0"
    and rows: "\<forall>i<unat count. \<exists>index src.
              GetIndex type ib (of_nat i) = Inr index \<and>
              vs_m_Source (?S ! j) = Some src \<and>
              load (memory st1)
                (fst src, snd src + unat (index * ucast (vs_m_Stride (?S ! j)))) ?sz
              = Inr (take ?sz (drop (i * ?sz) bs))"
    by blast
  from rows assms(6) obtain index src where r: "GetIndex type ib (of_nat i) = Inr index"
    "vs_m_Source (?S ! j) = Some src"
    "load (memory st1) (fst src, snd src + unat (index * ucast (vs_m_Stride (?S ! j)))) ?sz
       = Inr (take ?sz (drop (i * ?sz) bs))"
    by blast
  have "fst src < ?L"
    using lay _ r(2) [folded f(1)] by (rule draw_layout_source) (use len1 assms(4) in simp)
  moreover have "\<forall>b<?L. block (memory st1) b = block (memory st) b"
    using alloc_loop_memory [OF a] by (simp add: block_def)
  ultimately have ld: "load (memory st) (fst src, snd src + unat (index * ucast (vs_m_Stride (?S ! j)))) ?sz
       = Inr (take ?sz (drop (i * ?sz) bs))"
    using load_below [of ?L "memory st1" "memory st"
        "(fst src, snd src + unat (index * ucast (vs_m_Stride (?S ! j))))" ?sz] r(3)
    by simp
  have fresh: "\<forall>j<?N. 0 < vs_m_Size (?T ! j) \<longrightarrow> (\<exists>b. vs_m_Buffer (?T ! j) = Some (b, 0) \<and> ?L \<le> b)"
    using draw_layout_buffer [OF lay] len1 by simp
  have dev: "gdevice st' = gdevice st1" using gather_loop_frame [OF g fresh] by simp
  have buf: "vs_m_Buffer (m_VertexStreams (gdevice st') ! j) = Some (b, 0)"
    using b(1) dev by simp
  have "Suc i * ?sz \<le> unat count * ?sz" using assms(6) by (intro mult_le_mono1) simp
  then have "i * ?sz + ?sz \<le> length bs" using bs(2,3) by simp
  then have out: "load (memory st') (b, i * ?sz) ?sz = Inr (take ?sz (drop (i * ?sz) bs))"
    using bs(1) by (simp add: load_def)
  show ?thesis using ib r(1,2) buf ld out by blast
qed

theorem DrawElements_gathers_witness:
  "DrawElements example_bound GetContext 3 TYPE_UNSIGNED_SHORT (Some example_indices)
     = Inr example_drawn \<and>
   (\<exists>ib index src b data.
      Some example_indices = Some ib \<and>
      GetIndex TYPE_UNSIGNED_SHORT ib (of_nat 0) = Inr index \<and>
      vs_m_Source (m_VertexStreams (gdevice example_bound) ! 1) = Some src \<and>
      vs_m_Buffer (m_VertexStreams (gdevice example_drawn) ! 1) = Some (b, 0) \<and>
      load (memory example_bound)
        (fst src, snd src + unat (index * ucast (vs_m_Stride (m_VertexStreams (gdevice example_bound) ! 1))))
        (unat (vs_m_Size (m_VertexStreams (gdevice example_bound) ! 1))) = Inr data \<and>
      load (memory example_drawn)
        (b, 0 * unat (vs_m_Size (m_VertexStreams (gdevice example_bound) ! 1)))
        (unat (vs_m_Size (m_VertexStreams (gdevice example_bound) ! 1))) = Inr data) \<and>
   GetIndex TYPE_UNSIGNED_SHORT example_indices 0 = Inr 2 \<and>
   load (memory example_drawn) (14, 0) 4 = Inr [44, 45, 46, 47] \<and>
   load (memory example_bound) (12, 12 + 2 * 16) 4 = Inr [44, 45, 46, 47]"
proof -
  have run: "DrawElements example_bound GetContext 3 TYPE_UNSIGNED_SHORT (Some example_indices)
     = Inr example_drawn"
    by code_simp
  have len: "length (m_VertexStreams (gdevice example_bound)) = MAX_VERTEX_STREAM_COUNT"
    by code_simp
  have src: "sources_allocated example_bound" by code_simp
  have j: "(1 :: nat) < MAX_VERTEX_STREAM_COUNT" by code_simp
  have act: "0 < vs_m_Size (m_VertexStreams (gdevice example_bound) ! 1)" by code_simp
  have i: "(0 :: nat) < unat (3 :: 32 word)" by simp
  have val: "GetIndex TYPE_UNSIGNED_SHORT example_indices 0 = Inr 2 \<and>
    load (memory example_drawn) (14, 0) 4 = Inr [44, 45, 46, 47] \<and>
    load (memory example_bound) (12, 12 + 2 * 16) 4 = Inr [44, 45, 46, 47]"
    by code_simp
  show ?thesis
    using DrawElements_gathers [OF run len src j act i] run val by blast
qed

text \<open>
  The identity index sequence 0, 1, 2 reproduces the source vertex order in both
  compaction buffers; the sequence 2, 0, 1 gives the buffers of the example state after
  the draw, permuted accordingly.
\<close>

lemma DrawElements_example_identity:
  "(case DrawElements example_bound GetContext 3 TYPE_UNSIGNED_SHORT (Some [0, 0, 1, 0, 2, 0]) of
      Inl e \<Rightarrow> False
    | Inr st' \<Rightarrow>
        block (memory st') 13 = Some (map of_nat ([0..<12] @ [16..<28] @ [32..<44])) \<and>
        block (memory st') 14 = Some (map of_nat ([12..<16] @ [28..<32] @ [44..<48])))"
  by code_simp

lemma DrawElements_example_permuted:
  "block (memory example_drawn) 13 = Some (map of_nat ([32..<44] @ [0..<12] @ [16..<28])) \<and>
   block (memory example_drawn) 14 = Some (map of_nat ([44..<48] @ [12..<16] @ [28..<32]))"
  by code_simp

subsection \<open>When the operations return normally\<close>

text \<open>
  \<^verbatim>\<open>Clear\<close> with the colour flag alone returns normally when the active colour plane is
  a live array that holds \<^verbatim>\<open>m_DisplayWidth * m_DisplayHeight\<close> words.
\<close>

lemma Clear_colour_returns:
  assumes "context \<noteq> None"
    and "render_buffer st = Inr fb"
    and "m_ColorBuffer fb = Some c"
    and "block (memory st) (fst c) = Some bs"
    and "snd c + 4 * unat (m_DisplayWidth (gdevice st) * m_DisplayHeight (gdevice st)) \<le> length bs"
  shows "\<exists>st'. Clear st context CLEAR_COLOUR_BUFFER red green blue alpha depth stencil = Inr st'"
proof -
  let ?n = "unat (m_DisplayWidth (gdevice st) * m_DisplayHeight (gdevice st))"
  from fill_words_succeeds [OF assms(4,5), of "clear_colour red green blue alpha"]
  obtain H' where H': "fill_words (memory st) (Some (fst c, snd c)) ?n
      (clear_colour red green blue alpha) = Inr H'"
    by blast
  have flags: "CLEAR_COLOUR_BUFFER AND CLEAR_COLOUR_BUFFER \<noteq> 0"
    "CLEAR_COLOUR_BUFFER AND CLEAR_DEPTH_BUFFER = 0"
    "CLEAR_COLOUR_BUFFER AND CLEAR_STENCIL_BUFFER = 0"
    by (simp_all add: CLEAR_COLOUR_BUFFER_def CLEAR_DEPTH_BUFFER_def CLEAR_STENCIL_BUFFER_def)
  have "Clear st context CLEAR_COLOUR_BUFFER red green blue alpha depth stencil
          = Inr (st\<lparr>memory := H'\<rparr>)"
    using assms(1,2,3) H' flags by (simp add: Clear_def Let_def)
  then show ?thesis by blast
qed

text \<open>
  \<^verbatim>\<open>EnableVertexDeclaration\<close> returns normally when the context and the storage of the
  vertex buffer are non-null and every slot that the declaration fills is disabled.
\<close>

lemma bind_loop_returns:
  assumes "context \<noteq> None"
    and "length (m_Elements vd) = MAX_VERTEX_STREAM_COUNT"
    and "length (m_VertexStreams (gdevice st)) = MAX_VERTEX_STREAM_COUNT"
    and "vb_m_Buffer vb = Some (b, off)"
    and "\<forall>j<MAX_VERTEX_STREAM_COUNT. 0 < ve_m_Size (m_Elements vd ! j) \<longrightarrow>
           vs_m_Source (m_VertexStreams (gdevice st) ! j) = None \<and>
           vs_m_Buffer (m_VertexStreams (gdevice st) ! j) = None"
  shows "k \<le> MAX_VERTEX_STREAM_COUNT \<Longrightarrow>
     \<exists>acc. for_upto k (EnableVertexDeclaration_bind context vd vb stride) (st, 0) = Inr acc"
proof (induction k)
  case 0
  then show ?case by simp
next
  case (Suc k)
  then obtain acc where
    acc: "for_upto k (EnableVertexDeclaration_bind context vd vb stride) (st, 0) = Inr acc"
    by auto
  have kl: "k < MAX_VERTEX_STREAM_COUNT" "k \<le> MAX_VERTEX_STREAM_COUNT" using Suc.prems by simp_all
  let ?ve = "m_Elements vd ! k"
  have same: "m_VertexStreams (gdevice (fst acc)) ! k = m_VertexStreams (gdevice st) ! k"
    using bind_loop_streams [OF acc kl(2) _ assms(4), of k] assms(2,3) kl by simp
  have "\<exists>acc'. EnableVertexDeclaration_bind context vd vb stride k acc = Inr acc'"
  proof (cases "0 < ve_m_Size ?ve")
    case False
    then show ?thesis by (simp add: EnableVertexDeclaration_bind_def Let_def)
  next
    case True
    then have dis: "vs_m_Source (m_VertexStreams (gdevice (fst acc)) ! k) = None"
      "vs_m_Buffer (m_VertexStreams (gdevice (fst acc)) ! k) = None"
      using assms(5) kl(1) same by simp_all
    have "\<exists>st'. SetVertexStream (fst acc) context (of_nat k) (ucast (ve_m_Size ?ve))
             (ve_m_Type ?ve) stride (Some (b, off + unat (snd acc))) = Inr st'"
      using assms(1) dis kl(1) by (simp add: SetVertexStream_def Let_def unat_slot)
    then show ?thesis
      using True assms(4)
      by (auto simp: EnableVertexDeclaration_bind_def Let_def ptr_add_def)
  qed
  then show ?case using acc by auto
qed

lemma EnableVertexDeclaration_returns:
  assumes "context \<noteq> None"
    and "length (m_Elements vd) = MAX_VERTEX_STREAM_COUNT"
    and "length (m_VertexStreams (gdevice st)) = MAX_VERTEX_STREAM_COUNT"
    and "vb_m_Buffer vb = Some (b, off)"
    and "\<forall>j<MAX_VERTEX_STREAM_COUNT. 0 < ve_m_Size (m_Elements vd ! j) \<longrightarrow>
           vs_m_Source (m_VertexStreams (gdevice st) ! j) = None \<and>
           vs_m_Buffer (m_VertexStreams (gdevice st) ! j) = None"
  shows "\<exists>st'. EnableVertexDeclaration st context (Some vd) (Some vb) = Inr st'"
proof -
  from stride_loop [of MAX_VERTEX_STREAM_COUNT vd] assms(2)
  obtain stride where
    s: "for_upto MAX_VERTEX_STREAM_COUNT (EnableVertexDeclaration_stride vd) 0 = Inr stride"
    by auto
  from bind_loop_returns [OF assms, of MAX_VERTEX_STREAM_COUNT stride]
  obtain acc where "for_upto MAX_VERTEX_STREAM_COUNT
      (EnableVertexDeclaration_bind context vd vb stride) (st, 0) = Inr acc"
    by auto
  then show ?thesis
    using s assms(1) by (simp add: EnableVertexDeclaration_def)
qed

text \<open>
  \<^verbatim>\<open>DrawElements\<close> returns normally when every index can be read, every indexed vertex
  lies inside the array of its source, and the size of no compaction buffer exceeds
  \<^verbatim>\<open>uint32_t\<close>.
\<close>

lemma DrawElements_copy_returns:
  assumes "draw_layout L (gdevice s)"
    and "j < length (m_VertexStreams (gdevice s))"
    and "0 < vs_m_Size (m_VertexStreams (gdevice s) ! j) \<longrightarrow>
           (\<exists>src data. vs_m_Source (m_VertexStreams (gdevice s) ! j) = Some src \<and>
              load (memory s)
                (fst src, snd src + unat (index * ucast (vs_m_Stride (m_VertexStreams (gdevice s) ! j))))
                (unat (vs_m_Size (m_VertexStreams (gdevice s) ! j))) = Inr data)"
    and "0 < vs_m_Size (m_VertexStreams (gdevice s) ! j) \<longrightarrow>
           (\<exists>b bs. vs_m_Buffer (m_VertexStreams (gdevice s) ! j) = Some (b, 0) \<and>
              block (memory s) b = Some bs \<and>
              unat (of_nat i * ucast (vs_m_Size (m_VertexStreams (gdevice s) ! j)) :: 32 word)
                + unat (vs_m_Size (m_VertexStreams (gdevice s) ! j)) \<le> length bs)"
  shows "\<exists>s'. DrawElements_copy i index j s = Inr s' \<and>
           (\<forall>b bs. block (memory s) b = Some bs \<longrightarrow>
              (\<exists>bs'. block (memory s') b = Some bs' \<and> length bs' = length bs))"
proof (cases "0 < vs_m_Size (m_VertexStreams (gdevice s) ! j)")
  case False
  then show ?thesis by (simp add: DrawElements_copy_def)
next
  case True
  let ?vs = "m_VertexStreams (gdevice s) ! j"
  let ?k = "unat (of_nat i * ucast (vs_m_Size ?vs) :: 32 word)"
  from assms(3) True obtain src data where
    src: "vs_m_Source ?vs = Some src" and
    ld: "load (memory s) (fst src, snd src + unat (index * ucast (vs_m_Stride ?vs)))
           (unat (vs_m_Size ?vs)) = Inr data"
    by blast
  from assms(4) True obtain b bs where
    buf: "vs_m_Buffer ?vs = Some (b, 0)" and blk: "block (memory s) b = Some bs" and
    fit: "?k + unat (vs_m_Size ?vs) \<le> length bs"
    by blast
  have "fst src < L" using assms(1,2) src by (rule draw_layout_source)
  moreover have "L \<le> b" using draw_layout_buffer [OF assms(1,2) True] buf by auto
  ultimately have apart: "b \<noteq> fst src" by simp
  have ldata: "length data = unat (vs_m_Size ?vs)" using ld by (rule load_length)
  have bl: "b < length (memory s)" using blk by (rule block_Some_less)
  let ?H = "(memory s)[b := Some (overwrite bs ?k data)]"
  have st: "store (memory s) (b, ?k) data = Inr ?H"
    using blk fit ldata by (simp add: store_def)
  have src_eq: "src = (fst src, snd src)" by simp
  have mc: "memcpy (memory s) (Some (b, ?k))
              (Some (fst src, snd src + unat (index * ucast (vs_m_Stride ?vs))))
              (unat (vs_m_Size ?vs)) = Inr ?H"
    using apart ld st by (intro memcpy_copies) simp_all
  have pa1: "ptr_add (vs_m_Buffer ?vs) ?k = Inr (Some (b, ?k))"
    using buf by (simp add: ptr_add_def)
  have pa2: "ptr_add (vs_m_Source ?vs) (unat (index * ucast (vs_m_Stride ?vs)))
      = Inr (Some (fst src, snd src + unat (index * ucast (vs_m_Stride ?vs))))"
    using src by (simp add: ptr_add_def split: prod.splits)
  have res: "DrawElements_copy i index j s = Inr (s\<lparr>memory := ?H\<rparr>)"
    unfolding DrawElements_copy_def Let_def using True pa1 pa2 mc by simp
  have len: "length (overwrite bs ?k data) = length bs"
    using fit ldata by (simp add: overwrite_def)
  have "\<exists>bs'. block ?H c = Some bs' \<and> length bs' = length cs"
    if "block (memory s) c = Some cs" for c cs
  proof (cases "c = b")
    case True
    then show ?thesis using that blk bl len by (simp add: block_def)
  next
    case False
    then show ?thesis using that by (simp add: block_def split: if_splits)
  qed
  then show ?thesis using res by simp
qed

lemma copy_loop_returns:
  assumes "draw_layout L (gdevice s)"
    and "m \<le> length (m_VertexStreams (gdevice s))"
    and "\<forall>j<length (m_VertexStreams (gdevice s)).
           0 < vs_m_Size (m_VertexStreams (gdevice s) ! j) \<longrightarrow>
           (\<exists>src data. vs_m_Source (m_VertexStreams (gdevice s) ! j) = Some src \<and>
              load (memory s)
                (fst src, snd src + unat (index * ucast (vs_m_Stride (m_VertexStreams (gdevice s) ! j))))
                (unat (vs_m_Size (m_VertexStreams (gdevice s) ! j))) = Inr data)"
    and "\<forall>j<length (m_VertexStreams (gdevice s)).
           0 < vs_m_Size (m_VertexStreams (gdevice s) ! j) \<longrightarrow>
           (\<exists>b bs. vs_m_Buffer (m_VertexStreams (gdevice s) ! j) = Some (b, 0) \<and>
              block (memory s) b = Some bs \<and>
              unat (of_nat i * ucast (vs_m_Size (m_VertexStreams (gdevice s) ! j)) :: 32 word)
                + unat (vs_m_Size (m_VertexStreams (gdevice s) ! j)) \<le> length bs)"
  shows "\<exists>s'. for_upto m (DrawElements_copy i index) s = Inr s' \<and>
           (\<forall>b bs. block (memory s) b = Some bs \<longrightarrow>
              (\<exists>bs'. block (memory s') b = Some bs' \<and> length bs' = length bs))"
  using assms(2)
proof (induction m)
  case 0
  then show ?case by simp
next
  case (Suc m)
  let ?S = "m_VertexStreams (gdevice s)"
  from Suc obtain s1 where
    s1: "for_upto m (DrawElements_copy i index) s = Inr s1" and
    keep1: "\<forall>b bs. block (memory s) b = Some bs \<longrightarrow>
              (\<exists>bs'. block (memory s1) b = Some bs' \<and> length bs' = length bs)"
    by auto
  have ml: "m < length ?S" using Suc.prems by simp
  have lay: "\<forall>j<m. 0 < vs_m_Size (?S ! j) \<longrightarrow>
           (\<exists>b. vs_m_Buffer (?S ! j) = Some (b, 0) \<and> L \<le> b)"
    using draw_layout_buffer [OF assms(1)] ml by simp
  from copy_loop_frame [OF s1 lay] have
    dev: "gdevice s1 = gdevice s" and
    low: "\<forall>b<L. block (memory s1) b = block (memory s) b"
    by simp_all
  have a1: "draw_layout L (gdevice s1)" using assms(1) dev by simp
  have a2: "m < length (m_VertexStreams (gdevice s1))" using ml dev by simp
  have a3: "0 < vs_m_Size (m_VertexStreams (gdevice s1) ! m) \<longrightarrow>
           (\<exists>src data. vs_m_Source (m_VertexStreams (gdevice s1) ! m) = Some src \<and>
              load (memory s1)
                (fst src, snd src + unat (index * ucast (vs_m_Stride (m_VertexStreams (gdevice s1) ! m))))
                (unat (vs_m_Size (m_VertexStreams (gdevice s1) ! m))) = Inr data)"
  proof
    assume act: "0 < vs_m_Size (m_VertexStreams (gdevice s1) ! m)"
    then have "0 < vs_m_Size (?S ! m)" using dev by simp
    with assms(3) ml obtain src data where
      src: "vs_m_Source (?S ! m) = Some src" and
      ld: "load (memory s) (fst src, snd src + unat (index * ucast (vs_m_Stride (?S ! m))))
             (unat (vs_m_Size (?S ! m))) = Inr data"
      by blast
    have "fst src < L" using assms(1) ml src by (rule draw_layout_source)
    then have "block (memory s1) (fst src) = block (memory s) (fst src)" using low by simp
    then have "load (memory s1) (fst src, snd src + unat (index * ucast (vs_m_Stride (?S ! m))))
             (unat (vs_m_Size (?S ! m))) = Inr data"
      using ld by (simp add: load_def)
    then show "\<exists>src data. vs_m_Source (m_VertexStreams (gdevice s1) ! m) = Some src \<and>
              load (memory s1)
                (fst src, snd src + unat (index * ucast (vs_m_Stride (m_VertexStreams (gdevice s1) ! m))))
                (unat (vs_m_Size (m_VertexStreams (gdevice s1) ! m))) = Inr data"
      using src dev by auto
  qed
  have a4: "0 < vs_m_Size (m_VertexStreams (gdevice s1) ! m) \<longrightarrow>
           (\<exists>b bs. vs_m_Buffer (m_VertexStreams (gdevice s1) ! m) = Some (b, 0) \<and>
              block (memory s1) b = Some bs \<and>
              unat (of_nat i * ucast (vs_m_Size (m_VertexStreams (gdevice s1) ! m)) :: 32 word)
                + unat (vs_m_Size (m_VertexStreams (gdevice s1) ! m)) \<le> length bs)"
  proof
    assume act: "0 < vs_m_Size (m_VertexStreams (gdevice s1) ! m)"
    then have "0 < vs_m_Size (?S ! m)" using dev by simp
    with assms(4) ml obtain b bs where
      buf: "vs_m_Buffer (?S ! m) = Some (b, 0)" and blk: "block (memory s) b = Some bs" and
      fit: "unat (of_nat i * ucast (vs_m_Size (?S ! m)) :: 32 word) + unat (vs_m_Size (?S ! m))
              \<le> length bs"
      by blast
    from keep1 blk obtain bs' where "block (memory s1) b = Some bs'" "length bs' = length bs"
      by blast
    then show "\<exists>b bs. vs_m_Buffer (m_VertexStreams (gdevice s1) ! m) = Some (b, 0) \<and>
              block (memory s1) b = Some bs \<and>
              unat (of_nat i * ucast (vs_m_Size (m_VertexStreams (gdevice s1) ! m)) :: 32 word)
                + unat (vs_m_Size (m_VertexStreams (gdevice s1) ! m)) \<le> length bs"
      using buf fit dev by auto
  qed
  from DrawElements_copy_returns [OF a1 a2 a3 a4] obtain s' where
    s': "DrawElements_copy i index m s1 = Inr s'" and
    keep2: "\<forall>b bs. block (memory s1) b = Some bs \<longrightarrow>
              (\<exists>bs'. block (memory s') b = Some bs' \<and> length bs' = length bs)"
    by blast
  have run: "for_upto (Suc m) (DrawElements_copy i index) s = Inr s'"
    using s1 s' by simp
  have "\<exists>bs'. block (memory s') c = Some bs' \<and> length bs' = length cs"
    if "block (memory s) c = Some cs" for c cs
  proof -
    from keep1 that obtain ds where "block (memory s1) c = Some ds" "length ds = length cs"
      by blast
    with keep2 show ?thesis by fastforce
  qed
  then show ?case using run by blast
qed

lemma gather_loop_returns:
  assumes "draw_layout L (gdevice s)"
    and "length (m_VertexStreams (gdevice s)) = MAX_VERTEX_STREAM_COUNT"
  shows "\<forall>i<n. \<exists>index. GetIndex type ib (of_nat i) = Inr index \<and>
           (\<forall>j<MAX_VERTEX_STREAM_COUNT. 0 < vs_m_Size (m_VertexStreams (gdevice s) ! j) \<longrightarrow>
              (\<exists>src data. vs_m_Source (m_VertexStreams (gdevice s) ! j) = Some src \<and>
                 load (memory s)
                   (fst src, snd src + unat (index * ucast (vs_m_Stride (m_VertexStreams (gdevice s) ! j))))
                   (unat (vs_m_Size (m_VertexStreams (gdevice s) ! j))) = Inr data)) \<Longrightarrow>
         \<forall>j<MAX_VERTEX_STREAM_COUNT. 0 < vs_m_Size (m_VertexStreams (gdevice s) ! j) \<longrightarrow>
           (\<exists>b bs. vs_m_Buffer (m_VertexStreams (gdevice s) ! j) = Some (b, 0) \<and>
              block (memory s) b = Some bs \<and>
              n * unat (vs_m_Size (m_VertexStreams (gdevice s) ! j)) \<le> length bs \<and>
              length bs < 2 ^ 32) \<Longrightarrow>
         \<exists>s'. for_upto n (DrawElements_gather type ib) s = Inr s' \<and>
           (\<forall>b bs. block (memory s) b = Some bs \<longrightarrow>
              (\<exists>bs'. block (memory s') b = Some bs' \<and> length bs' = length bs))"
proof (induction n)
  case 0
  then show ?case by simp
next
  case (Suc n)
  let ?S = "m_VertexStreams (gdevice s)"
  have buf_n: "\<forall>j<MAX_VERTEX_STREAM_COUNT. 0 < vs_m_Size (?S ! j) \<longrightarrow>
           (\<exists>b bs. vs_m_Buffer (?S ! j) = Some (b, 0) \<and>
              block (memory s) b = Some bs \<and>
              n * unat (vs_m_Size (?S ! j)) \<le> length bs \<and> length bs < 2 ^ 32)"
  proof (intro allI impI)
    fix j assume j: "j < MAX_VERTEX_STREAM_COUNT" and act: "0 < vs_m_Size (?S ! j)"
    with Suc.prems(2) obtain b bs where
      "vs_m_Buffer (?S ! j) = Some (b, 0)" "block (memory s) b = Some bs"
      "Suc n * unat (vs_m_Size (?S ! j)) \<le> length bs" "length bs < 2 ^ 32"
      by blast
    then show "\<exists>b bs. vs_m_Buffer (?S ! j) = Some (b, 0) \<and>
              block (memory s) b = Some bs \<and>
              n * unat (vs_m_Size (?S ! j)) \<le> length bs \<and> length bs < 2 ^ 32"
      by auto
  qed
  have idx_n: "\<forall>i<n. \<exists>index. GetIndex type ib (of_nat i) = Inr index \<and>
           (\<forall>j<MAX_VERTEX_STREAM_COUNT. 0 < vs_m_Size (?S ! j) \<longrightarrow>
              (\<exists>src data. vs_m_Source (?S ! j) = Some src \<and>
                 load (memory s)
                   (fst src, snd src + unat (index * ucast (vs_m_Stride (?S ! j))))
                   (unat (vs_m_Size (?S ! j))) = Inr data))"
    using Suc.prems(1) by simp
  from Suc.IH [OF idx_n buf_n] obtain s1 where
    s1: "for_upto n (DrawElements_gather type ib) s = Inr s1" and
    keep1: "\<forall>b bs. block (memory s) b = Some bs \<longrightarrow>
              (\<exists>bs'. block (memory s1) b = Some bs' \<and> length bs' = length bs)"
    by blast
  have lay: "\<forall>j<MAX_VERTEX_STREAM_COUNT. 0 < vs_m_Size (?S ! j) \<longrightarrow>
           (\<exists>b. vs_m_Buffer (?S ! j) = Some (b, 0) \<and> L \<le> b)"
    using draw_layout_buffer [OF assms(1)] assms(2) by simp
  from gather_loop_frame [OF s1 lay] have
    dev: "gdevice s1 = gdevice s" and
    low: "\<forall>b<L. block (memory s1) b = block (memory s) b"
    by simp_all
  from Suc.prems(1) obtain index where
    gi: "GetIndex type ib (of_nat n) = Inr index" and
    srcs: "\<forall>j<MAX_VERTEX_STREAM_COUNT. 0 < vs_m_Size (?S ! j) \<longrightarrow>
              (\<exists>src data. vs_m_Source (?S ! j) = Some src \<and>
                 load (memory s)
                   (fst src, snd src + unat (index * ucast (vs_m_Stride (?S ! j))))
                   (unat (vs_m_Size (?S ! j))) = Inr data)"
    by blast
  have a1: "draw_layout L (gdevice s1)" using assms(1) dev by simp
  have a2: "MAX_VERTEX_STREAM_COUNT \<le> length (m_VertexStreams (gdevice s1))"
    using assms(2) dev by simp
  have a3: "\<forall>j<length (m_VertexStreams (gdevice s1)).
           0 < vs_m_Size (m_VertexStreams (gdevice s1) ! j) \<longrightarrow>
           (\<exists>src data. vs_m_Source (m_VertexStreams (gdevice s1) ! j) = Some src \<and>
              load (memory s1)
                (fst src, snd src + unat (index * ucast (vs_m_Stride (m_VertexStreams (gdevice s1) ! j))))
                (unat (vs_m_Size (m_VertexStreams (gdevice s1) ! j))) = Inr data)"
  proof (intro allI impI)
    fix j
    assume "j < length (m_VertexStreams (gdevice s1))"
      and "0 < vs_m_Size (m_VertexStreams (gdevice s1) ! j)"
    then have j: "j < MAX_VERTEX_STREAM_COUNT" and act: "0 < vs_m_Size (?S ! j)"
      using dev assms(2) by simp_all
    with srcs obtain src data where
      src: "vs_m_Source (?S ! j) = Some src" and
      ld: "load (memory s) (fst src, snd src + unat (index * ucast (vs_m_Stride (?S ! j))))
             (unat (vs_m_Size (?S ! j))) = Inr data"
      by blast
    have jl: "j < length ?S" using j assms(2) by simp
    have "fst src < L" using assms(1) jl src by (rule draw_layout_source)
    then have "block (memory s1) (fst src) = block (memory s) (fst src)" using low by simp
    then have "load (memory s1) (fst src, snd src + unat (index * ucast (vs_m_Stride (?S ! j))))
             (unat (vs_m_Size (?S ! j))) = Inr data"
      using ld by (simp add: load_def)
    then show "\<exists>src data. vs_m_Source (m_VertexStreams (gdevice s1) ! j) = Some src \<and>
              load (memory s1)
                (fst src, snd src + unat (index * ucast (vs_m_Stride (m_VertexStreams (gdevice s1) ! j))))
                (unat (vs_m_Size (m_VertexStreams (gdevice s1) ! j))) = Inr data"
      using src dev by auto
  qed
  have a4: "\<forall>j<length (m_VertexStreams (gdevice s1)).
           0 < vs_m_Size (m_VertexStreams (gdevice s1) ! j) \<longrightarrow>
           (\<exists>b bs. vs_m_Buffer (m_VertexStreams (gdevice s1) ! j) = Some (b, 0) \<and>
              block (memory s1) b = Some bs \<and>
              unat (of_nat n * ucast (vs_m_Size (m_VertexStreams (gdevice s1) ! j)) :: 32 word)
                + unat (vs_m_Size (m_VertexStreams (gdevice s1) ! j)) \<le> length bs)"
  proof (intro allI impI)
    fix j
    assume "j < length (m_VertexStreams (gdevice s1))"
      and "0 < vs_m_Size (m_VertexStreams (gdevice s1) ! j)"
    then have j: "j < MAX_VERTEX_STREAM_COUNT" and act: "0 < vs_m_Size (?S ! j)"
      using dev assms(2) by simp_all
    with Suc.prems(2) obtain b bs where
      buf: "vs_m_Buffer (?S ! j) = Some (b, 0)" and blk: "block (memory s) b = Some bs" and
      fit: "Suc n * unat (vs_m_Size (?S ! j)) \<le> length bs" and small: "length bs < 2 ^ 32"
      by blast
    from keep1 blk obtain bs' where
      blk': "block (memory s1) b = Some bs'" and len': "length bs' = length bs"
      by blast
    have "n * unat (vs_m_Size (?S ! j)) < 2 ^ 32" using fit small by simp
    then have "unat (of_nat n * ucast (vs_m_Size (?S ! j)) :: 32 word) = n * unat (vs_m_Size (?S ! j))"
      using act by (rule row_offset)
    then have "unat (of_nat n * ucast (vs_m_Size (?S ! j)) :: 32 word) + unat (vs_m_Size (?S ! j))
                 \<le> length bs'"
      using fit len' by simp
    then show "\<exists>b bs. vs_m_Buffer (m_VertexStreams (gdevice s1) ! j) = Some (b, 0) \<and>
              block (memory s1) b = Some bs \<and>
              unat (of_nat n * ucast (vs_m_Size (m_VertexStreams (gdevice s1) ! j)) :: 32 word)
                + unat (vs_m_Size (m_VertexStreams (gdevice s1) ! j)) \<le> length bs"
      using buf blk' dev by auto
  qed
  from copy_loop_returns [OF a1 a2 a3 a4] obtain s' where
    s': "for_upto MAX_VERTEX_STREAM_COUNT (DrawElements_copy n index) s1 = Inr s'" and
    keep2: "\<forall>b bs. block (memory s1) b = Some bs \<longrightarrow>
              (\<exists>bs'. block (memory s') b = Some bs' \<and> length bs' = length bs)"
    by blast
  have "DrawElements_gather type ib n s1 = Inr s'"
    using gi s' by (simp add: DrawElements_gather_def)
  then have run: "for_upto (Suc n) (DrawElements_gather type ib) s = Inr s'"
    using s1 by simp
  have "\<exists>bs'. block (memory s') c = Some bs' \<and> length bs' = length cs"
    if "block (memory s) c = Some cs" for c cs
  proof -
    from keep1 that obtain ds where "block (memory s1) c = Some ds" "length ds = length cs"
      by blast
    with keep2 show ?thesis by fastforce
  qed
  then show ?case using run by blast
qed

lemma DrawElements_returns:
  assumes "context \<noteq> None"
    and "length (m_VertexStreams (gdevice st)) = MAX_VERTEX_STREAM_COUNT"
    and "sources_allocated st"
    and "\<forall>i<unat count. \<exists>index. GetIndex type ib (of_nat i) = Inr index \<and>
           (\<forall>j<MAX_VERTEX_STREAM_COUNT. 0 < vs_m_Size (m_VertexStreams (gdevice st) ! j) \<longrightarrow>
              (\<exists>src data. vs_m_Source (m_VertexStreams (gdevice st) ! j) = Some src \<and>
                 load (memory st)
                   (fst src, snd src + unat (index * ucast (vs_m_Stride (m_VertexStreams (gdevice st) ! j))))
                   (unat (vs_m_Size (m_VertexStreams (gdevice st) ! j))) = Inr data))"
    and "\<forall>j<MAX_VERTEX_STREAM_COUNT. 0 < vs_m_Size (m_VertexStreams (gdevice st) ! j) \<longrightarrow>
           unat count * unat (vs_m_Size (m_VertexStreams (gdevice st) ! j)) < 2 ^ 32"
  shows "\<exists>st'. DrawElements st context count type (Some ib) = Inr st'"
proof -
  let ?S = "m_VertexStreams (gdevice st)"
  let ?L = "length (memory st)"
  from alloc_loop_succeeds obtain st1 where
    st1: "for_upto MAX_VERTEX_STREAM_COUNT (DrawElements_alloc count) st = Inr st1"
    by blast
  let ?T = "m_VertexStreams (gdevice st1)"
  have layout: "draw_layout ?L (gdevice st1)"
    using st1 assms(2,3) by (rule alloc_loop_layout)
  have len1: "length ?T = MAX_VERTEX_STREAM_COUNT"
    using alloc_loop_length [OF st1] assms(2) by simp
  have fields: "vs_m_Source (?T ! j) = vs_m_Source (?S ! j)"
    "vs_m_Size (?T ! j) = vs_m_Size (?S ! j)"
    "vs_m_Stride (?T ! j) = vs_m_Stride (?S ! j)" for j
    using alloc_loop_fields [OF st1, of j] by simp_all
  have low: "block (memory st1) b = block (memory st) b" if "b < ?L" for b
    using alloc_loop_memory [OF st1] that by (simp add: block_def)
  have idx1: "\<forall>i<unat count. \<exists>index. GetIndex type ib (of_nat i) = Inr index \<and>
           (\<forall>j<MAX_VERTEX_STREAM_COUNT. 0 < vs_m_Size (?T ! j) \<longrightarrow>
              (\<exists>src data. vs_m_Source (?T ! j) = Some src \<and>
                 load (memory st1)
                   (fst src, snd src + unat (index * ucast (vs_m_Stride (?T ! j))))
                   (unat (vs_m_Size (?T ! j))) = Inr data))"
  proof (intro allI impI)
    fix i assume "i < unat count"
    with assms(4) obtain index where
      gi: "GetIndex type ib (of_nat i) = Inr index" and
      srcs: "\<forall>j<MAX_VERTEX_STREAM_COUNT. 0 < vs_m_Size (?S ! j) \<longrightarrow>
              (\<exists>src data. vs_m_Source (?S ! j) = Some src \<and>
                 load (memory st)
                   (fst src, snd src + unat (index * ucast (vs_m_Stride (?S ! j))))
                   (unat (vs_m_Size (?S ! j))) = Inr data)"
      by blast
    have "\<exists>src data. vs_m_Source (?T ! j) = Some src \<and>
                 load (memory st1)
                   (fst src, snd src + unat (index * ucast (vs_m_Stride (?T ! j))))
                   (unat (vs_m_Size (?T ! j))) = Inr data"
      if j: "j < MAX_VERTEX_STREAM_COUNT" and act: "0 < vs_m_Size (?T ! j)" for j
    proof -
      from srcs j act obtain src data where
        src: "vs_m_Source (?S ! j) = Some src" and
        ld: "load (memory st) (fst src, snd src + unat (index * ucast (vs_m_Stride (?S ! j))))
               (unat (vs_m_Size (?S ! j))) = Inr data"
        unfolding fields by blast
      have "block (memory st) (fst src) \<noteq> None" using ld by (auto dest: load_InrD)
      then have "fst src < ?L" by (simp add: block_def split: if_splits)
      then have "block (memory st1) (fst src) = block (memory st) (fst src)" by (rule low)
      then have "load (memory st1) (fst src, snd src + unat (index * ucast (vs_m_Stride (?S ! j))))
               (unat (vs_m_Size (?S ! j))) = Inr data"
        using ld by (simp add: load_def)
      then show ?thesis using src unfolding fields by blast
    qed
    then show "\<exists>index. GetIndex type ib (of_nat i) = Inr index \<and>
           (\<forall>j<MAX_VERTEX_STREAM_COUNT. 0 < vs_m_Size (?T ! j) \<longrightarrow>
              (\<exists>src data. vs_m_Source (?T ! j) = Some src \<and>
                 load (memory st1)
                   (fst src, snd src + unat (index * ucast (vs_m_Stride (?T ! j))))
                   (unat (vs_m_Size (?T ! j))) = Inr data))"
      using gi by blast
  qed
  have buf1: "\<forall>j<MAX_VERTEX_STREAM_COUNT. 0 < vs_m_Size (?T ! j) \<longrightarrow>
           (\<exists>b bs. vs_m_Buffer (?T ! j) = Some (b, 0) \<and>
              block (memory st1) b = Some bs \<and>
              unat count * unat (vs_m_Size (?T ! j)) \<le> length bs \<and>
              length bs < 2 ^ 32)"
  proof (intro allI impI)
    fix j assume j: "j < MAX_VERTEX_STREAM_COUNT" and act1: "0 < vs_m_Size (?T ! j)"
    have act: "0 < vs_m_Size (?S ! j)" using act1 unfolding fields .
    let ?n = "unat (ucast (vs_m_Size (?S ! j)) * count :: 32 word)"
    from alloc_loop_active [OF st1 _ j act] assms(2) obtain b where
      buf: "vs_m_Buffer (?T ! j) = Some (b, 0)" and bl: "b < length (memory st1)" and
      blk: "memory st1 ! b = Some (replicate ?n 0)"
      by auto
    have small: "unat count * unat (vs_m_Size (?S ! j)) < 2 ^ 32" using assms(5) j act by simp
    have "?n = unat (count * ucast (vs_m_Size (?S ! j)) :: 32 word)" by (simp add: mult.commute)
    also have "\<dots> = (unat count * unat (vs_m_Size (?S ! j))) mod 2 ^ 32"
      by (rule unat_element_product)
    also have "\<dots> = unat count * unat (vs_m_Size (?S ! j))" using small by simp
    finally have n: "?n = unat count * unat (vs_m_Size (?S ! j))" .
    have "block (memory st1) b = Some (replicate ?n 0)" using bl blk by (simp add: block_def)
    moreover have "unat count * unat (vs_m_Size (?T ! j)) \<le> length (replicate ?n (0 :: byte))"
      unfolding fields using n by simp
    moreover have "length (replicate ?n (0 :: byte)) < 2 ^ 32" using n small by simp
    ultimately show "\<exists>b bs. vs_m_Buffer (?T ! j) = Some (b, 0) \<and>
              block (memory st1) b = Some bs \<and>
              unat count * unat (vs_m_Size (?T ! j)) \<le> length bs \<and>
              length bs < 2 ^ 32"
      using buf by blast
  qed
  from gather_loop_returns [OF layout len1 idx1 buf1] obtain st' where
    "for_upto (unat count) (DrawElements_gather type ib) st1 = Inr st'"
    by blast
  then show ?thesis using assms(1) st1 by (simp add: DrawElements_def)
qed

end
